theory Spec2Isabelle
  imports Complex_Main "HOL-Library.Log_Nat"
begin

section \<open>The measure engine of live\_score (src/js/measure.js)\<close>

text \<open>
  A shallow embedding of \<^verbatim>\<open>live_score.Measure\<close>. JavaScript numbers that hold ticks,
  note lengths and indices are integers here. The fractional position handed to
  \<^verbatim>\<open>quantize_position\<close> is a finite double, given by its exact value as a rational, and
  every operation on it is rounded as IEEE 754 binary64 arithmetic rounds it. An
  exception is a value \<open>Inl (error, measure)\<close>
  that carries the measure as it was when the exception was thrown (the object is
  mutated in place, so the caller still sees it). A function that contains the
  \<^verbatim>\<open>while\<close> loop of \<^verbatim>\<open>fill_space_with_rests\<close> returns an \<open>option\<close>: \<open>None\<close> means
  that the call does not return.
\<close>

subsection \<open>What measure.js takes from live\_score.js and note.js\<close>

text \<open>
  \<^verbatim>\<open>live_score.note_lengths\<close> (an object from names to note lengths, enumerated by
  \<^verbatim>\<open>for ... in\<close> in insertion order), \<^verbatim>\<open>live_score.note_length_to_ticks\<close> and
  \<^verbatim>\<open>live_score.translate_midi_number_to_pitch\<close> are defined outside measure.js.
  They are parameters of every function below.
\<close>

record 'p config =
  note_lengths :: "(string \<times> int) list"
  note_length_to_ticks :: "int \<Rightarrow> int"
  translate_midi_number_to_pitch :: "int \<Rightarrow> 'p"

text \<open>
  Modelled from the spec: the tick table of the worked scenario of section 8
  (whole = 16 ticks, half = 8, quarter = 4, eighth = 2, sixteenth = 1, enumerated
  whole, half, quarter, eighth, sixteenth, a length being encoded by its
  denominator). The pitch translation stays a parameter.
\<close>

definition scenario :: "(int \<Rightarrow> 'p) \<Rightarrow> 'p config" where
  "scenario tr =
     \<lparr> note_lengths = [(''whole'', 1), (''half'', 2), (''quarter'', 4), (''eighth'', 8),
                        (''sixteenth'', 16)],
       note_length_to_ticks = (\<lambda>note_length. 16 div note_length),
       translate_midi_number_to_pitch = tr \<rparr>"

text \<open>
  The struct \<^verbatim>\<open>note_info\<close> (structs.js), with the fields measure.js reads and writes.
  \<^verbatim>\<open>x_position\<close> is a finite double, given by its exact value.
  \<^verbatim>\<open>quantized_tick_position\<close> is \<open>None\<close> while the field is undefined.
\<close>

record note_info =
  pitch :: int
  note_length :: int
  quantization :: int
  x_position :: rat
  quantized_tick_position :: "int option"

text \<open>
  Modelled from the spec: the class \<^verbatim>\<open>live_score.Note\<close> of note.js, which is not part
  of the sources. Section 3 of the spec gives it as a variant, \<open>Rest{length}\<close> or
  \<open>Note{length, pitches}\<close> with a set of pitches; section 6 gives the predicates
  \<^verbatim>\<open>is_note\<close> and \<^verbatim>\<open>is_rest\<close>, adding and removing a pitch, and turning a note whose
  pitch set is empty into a rest of the same length.
\<close>

datatype 'p event = Rest (ev_length: int) | Note (ev_length: int) (pitches: "'p set")

fun is_note :: "'p event \<Rightarrow> bool" where
  "is_note (Note l ps) = True"
| "is_note (Rest l) = False"

fun is_rest :: "'p event \<Rightarrow> bool" where
  "is_rest (Rest l) = True"
| "is_rest (Note l ps) = False"

text \<open>Modelled from the spec: \<^verbatim>\<open>Note.prototype.add_note\<close>, adding the pitch of the request.\<close>

fun event_add_note :: "'p config \<Rightarrow> 'p event \<Rightarrow> note_info \<Rightarrow> 'p event" where
  "event_add_note c (Note l ps) ni = Note l (insert (translate_midi_number_to_pitch c (pitch ni)) ps)"
| "event_add_note c (Rest l) ni = Rest l"

text \<open>
  Modelled from the spec: \<^verbatim>\<open>Note.prototype.remove_note\<close>, removing the pitch of the
  request; the result says whether the pitch set has become empty.
\<close>

fun event_remove_note :: "'p config \<Rightarrow> 'p event \<Rightarrow> note_info \<Rightarrow> 'p event \<times> bool" where
  "event_remove_note c (Note l ps) ni =
     (Note l (ps - {translate_midi_number_to_pitch c (pitch ni)}),
      ps - {translate_midi_number_to_pitch c (pitch ni)} = {})"
| "event_remove_note c (Rest l) ni = (Rest l, False)"

text \<open>Modelled from the spec: \<^verbatim>\<open>Note.prototype.make_rest\<close>.\<close>

fun make_rest :: "'p event \<Rightarrow> 'p event" where
  "make_rest (Note l ps) = Rest l"
| "make_rest (Rest l) = Rest l"

subsection \<open>The Measure object\<close>

record measure_meta_data =
  num_beats :: int
  beat_value :: int

record 'p measure = measure_meta_data +
  mnotes :: "'p event list"
  num_ticks :: int

datatype error = TypeError | ReferenceError | NullLength

type_synonym 'p outcome = "(error \<times> 'p measure) + 'p measure"

text \<open>Reading \<^verbatim>\<open>a[i]\<close>: \<open>None\<close> is \<^verbatim>\<open>undefined\<close>.\<close>

definition js_index :: "'a list \<Rightarrow> int \<Rightarrow> 'a option" where
  "js_index xs i = (if 0 \<le> i \<and> i < int (length xs) then Some (xs ! nat i) else None)"

text \<open>
  \<^verbatim>\<open>a.splice(start, deleteCount, items...)\<close>: a negative start counts from the end,
  and both numbers are clamped to the array.
\<close>

definition js_splice :: "'a list \<Rightarrow> int \<Rightarrow> int \<Rightarrow> 'a list \<Rightarrow> 'a list" where
  "js_splice xs start delete_count items =
     (let n = int (length xs);
          s = (if start < 0 then max (n + start) 0 else min start n);
          k = min (max delete_count 0) (n - s)
      in take (nat s) xs @ items @ drop (nat (s + k)) xs)"

definition ticks_of :: "'p config \<Rightarrow> 'p event \<Rightarrow> int" where
  "ticks_of c e = note_length_to_ticks c (ev_length e)"

subsection \<open>calculate\_beat\_level and optimal\_rest\_length\<close>

text \<open>
  \<^verbatim>\<open>total_ticks % ticks === 0\<close> is false when \<^verbatim>\<open>ticks\<close> is 0 (the remainder is NaN);
  otherwise it says that \<^verbatim>\<open>ticks\<close> divides \<^verbatim>\<open>total_ticks\<close>, whatever the signs.
\<close>

definition beat_level_step :: "'p config \<Rightarrow> 'p measure \<Rightarrow> int \<Rightarrow> string \<times> int \<Rightarrow> int \<Rightarrow> int" where
  "beat_level_step c m total_ticks entry beat_level =
     (let note_length = snd entry;
          ticks = note_length_to_ticks c note_length
      in if (ticks \<noteq> 0 \<and> total_ticks mod ticks = 0) \<and>
            note_length < beat_level \<and>
            ticks \<le> num_ticks m
         then note_length else beat_level)"

definition calculate_beat_level :: "'p config \<Rightarrow> 'p measure \<Rightarrow> int \<Rightarrow> int" where
  "calculate_beat_level c m total_ticks =
     fold (beat_level_step c m total_ticks) (note_lengths c) (num_ticks m)"

text \<open>The state of the loop is \<^verbatim>\<open>(min_tick_difference, best_fit_note)\<close>; \<open>None\<close> is \<^verbatim>\<open>null\<close>.\<close>

definition rest_length_step :: "'p config \<Rightarrow> int \<Rightarrow> int \<Rightarrow> string \<times> int \<Rightarrow> int \<times> int option \<Rightarrow> int \<times> int option" where
  "rest_length_step c beat_position nticks entry st =
     (let note_length = snd entry;
          note_ticks = note_length_to_ticks c note_length;
          tick_difference = nticks - note_ticks
      in if note_length \<ge> beat_position \<and>
            tick_difference < fst st \<and>
            tick_difference \<ge> 0
         then (tick_difference, Some note_length) else st)"

definition optimal_rest_length :: "'p config \<Rightarrow> 'p measure \<Rightarrow> int \<Rightarrow> int \<Rightarrow> int option" where
  "optimal_rest_length c m beat_position nticks =
     snd (fold (rest_length_step c beat_position nticks) (note_lengths c) (num_ticks m, None))"

subsection \<open>fill\_space\_with\_rests\<close>

text \<open>
  The \<^verbatim>\<open>while\<close> loop. \<^verbatim>\<open>ticks_so_far\<close> is never changed by the source, so the beat level
  is always that of \<^verbatim>\<open>start_tick\<close>. When \<^verbatim>\<open>optimal_rest_length\<close> returns \<^verbatim>\<open>null\<close> the
  source goes on with \<^verbatim>\<open>note_length_to_ticks(null)\<close>, which measure.js does not
  determine: the model stops there with \<open>NullLength\<close>.
\<close>

partial_function (option) fill_loop ::
  "'p config \<Rightarrow> 'p measure \<Rightarrow> int \<Rightarrow> int \<Rightarrow> 'p event list \<Rightarrow> (error + 'p event list) option" where
  "fill_loop c m ticks_so_far ticks_left rests =
     (if ticks_left > 0 then
        (case optimal_rest_length c m (calculate_beat_level c m ticks_so_far) ticks_left of
           None \<Rightarrow> Some (Inl NullLength)
         | Some rest_length \<Rightarrow>
             fill_loop c m ticks_so_far (ticks_left - note_length_to_ticks c rest_length)
               (rests @ [Rest rest_length]))
      else Some (Inr rests))"

declare fill_loop.simps [code]

definition fill_space_with_rests ::
  "'p config \<Rightarrow> 'p measure \<Rightarrow> int \<Rightarrow> int \<Rightarrow> (error + 'p event list) option" where
  "fill_space_with_rests c m start_tick end_tick =
     fill_loop c m start_tick (end_tick - start_tick) []"

subsection \<open>The constructor\<close>

definition create_empty_measure :: "'p config \<Rightarrow> 'p measure \<Rightarrow> 'p outcome option" where
  "create_empty_measure c m =
     (case fill_space_with_rests c m 0 (num_ticks m) of
        None \<Rightarrow> None
      | Some (Inl e) \<Rightarrow> Some (Inl (e, m))
      | Some (Inr rests) \<Rightarrow> Some (Inr (m\<lparr>mnotes := mnotes m @ rests\<rparr>)))"

definition Measure :: "'p config \<Rightarrow> measure_meta_data \<Rightarrow> 'p outcome option" where
  "Measure c measure_meta_data =
     create_empty_measure c
       \<lparr> num_beats = num_beats measure_meta_data,
         beat_value = beat_value measure_meta_data,
         mnotes = [],
         num_ticks = num_beats measure_meta_data *
                     note_length_to_ticks c (beat_value measure_meta_data) \<rparr>"

subsection \<open>Double-precision arithmetic\<close>

text \<open>
  JavaScript numbers are IEEE 754 binary64 values, and \<^verbatim>\<open>*\<close>, \<^verbatim>\<open>/\<close> and \<^verbatim>\<open>-\<close> return the
  exact result rounded to the nearest double, a tie going to the double whose last
  significand bit is 0. \<open>round_half_even\<close> rounds a rational to the nearest integer in
  that way. \<open>binade r\<close> is, for \<open>r > 0\<close>, the exponent \<open>e\<close> with \<open>2^e \<le> r < 2^(e+1)\<close>.
  A double has 53 significand bits, so the doubles around \<open>x\<close> are the multiples of
  \<open>2^(binade |x| - 52)\<close>, and of \<open>2^(-1074)\<close> in the subnormal range. A result of
  magnitude \<open>2^1024\<close> or more is an Infinity.
\<close>

definition round_half_even :: "rat \<Rightarrow> int" where
  "round_half_even r =
     (let f = \<lfloor>r\<rfloor>; d = r - of_int f
      in if d < 1 / 2 then f else if 1 / 2 < d then f + 1 else if even f then f else f + 1)"

definition binade :: "rat \<Rightarrow> int" where
  "binade r = (if 1 \<le> r then bitlen \<lfloor>r\<rfloor> - 1 else - bitlen (\<lceil>1 / r\<rceil> - 1))"

definition scale2 :: "rat \<Rightarrow> int \<Rightarrow> rat" where
  "scale2 r e = (if 0 \<le> e then r * 2 ^ nat e else r / 2 ^ nat (- e))"

definition round_double :: "rat \<Rightarrow> rat" where
  "round_double x =
     (if x = 0 then 0
      else (let e = max (binade \<bar>x\<bar> - 52) (- 1074)
            in sgn x * scale2 (of_int (round_half_even (scale2 \<bar>x\<bar> (- e)))) e))"

definition overflows :: "rat \<Rightarrow> bool" where
  "overflows x = (2 ^ 1024 \<le> \<bar>round_double x\<bar>)"

subsection \<open>quantize\_position\<close>

text \<open>
  The \<^verbatim>\<open>for\<close> loop, with state \<^verbatim>\<open>(min_tick_difference, quantized_ticks_position)\<close>.
  The loop assigns \<^verbatim>\<open>quantized_ticks_position\<close>, which no \<^verbatim>\<open>var\<close> declares: it is a
  global variable that keeps its value from one call to the next, \<open>None\<close> while it
  has never been assigned. The product \<^verbatim>\<open>i * quantized_beat_ticks\<close> of two integers is
  exact; the difference with \<^verbatim>\<open>position_in_ticks\<close> is rounded.
\<close>

function quantize_loop ::
  "int \<Rightarrow> rat \<Rightarrow> rat \<Rightarrow> int \<Rightarrow> rat \<times> int option \<Rightarrow> rat \<times> int option" where
  "quantize_loop quantized_beat_ticks num_quantized_beats position_in_ticks i st =
     (if of_int i < num_quantized_beats then
        (let ticks_before_beat = i * quantized_beat_ticks;
             tick_difference = \<bar>round_double (of_int ticks_before_beat - position_in_ticks)\<bar>
         in quantize_loop quantized_beat_ticks num_quantized_beats position_in_ticks (i + 1)
              (if tick_difference < fst st then (tick_difference, Some ticks_before_beat)
               else st))
      else st)"
  by pat_completeness auto
termination
  by (relation "measure (\<lambda>(q, n, p, i, st). nat (\<lceil>n\<rceil> - i))") (auto simp: less_ceiling_iff)

text \<open>
  The argument \<open>g\<close> is the value of the global \<^verbatim>\<open>quantized_ticks_position\<close> before the
  call. The result is its value after the loop, which is what the call returns:
  \<open>Some None\<close> is the ReferenceError of reading a variable that was never assigned.
  The variable \<^verbatim>\<open>quantized_tick_position\<close> that the source declares and seeds is never
  read, so only the seed of \<^verbatim>\<open>min_tick_difference\<close> is kept. The quotient
  \<^verbatim>\<open>num_ticks / quantized_beat_ticks\<close> is a rounded division, not an integer division.
  When the resolution is worth 0 ticks the quotient is Infinity (the loop never ends)
  if \<^verbatim>\<open>num_ticks\<close> is positive, and -Infinity or NaN (the loop does not run) otherwise.
  When \<^verbatim>\<open>position * num_ticks\<close> overflows, \<^verbatim>\<open>position_in_ticks\<close> is an Infinity and so is
  every difference with it, the seed in the first branch included: no comparison
  \<^verbatim>\<open>tick_difference < min_tick_difference\<close> holds and the loop assigns nothing.
\<close>

definition quantize_position ::
  "'p config \<Rightarrow> 'p measure \<Rightarrow> int option \<Rightarrow> int \<Rightarrow> rat \<Rightarrow> int option option" where
  "quantize_position c m g quantization_level position =
     (let quantized_beat_ticks = note_length_to_ticks c quantization_level
      in if quantized_beat_ticks = 0 then (if num_ticks m > 0 then None else Some g)
         else
           (let num_quantized_beats =
                  round_double (of_int (num_ticks m) / of_int quantized_beat_ticks);
                position_in_ticks = round_double (position * of_int (num_ticks m));
                min_tick_difference =
                  (if round_double (num_quantized_beats * of_int quantized_beat_ticks)
                        < of_int (num_ticks m)
                   then \<bar>round_double (of_int (num_ticks m) - position_in_ticks)\<bar>
                   else of_int (num_ticks m))
            in if overflows (position * of_int (num_ticks m)) then Some g
               else Some (snd (quantize_loop quantized_beat_ticks num_quantized_beats
                                 position_in_ticks 0 (min_tick_difference, g)))))"

subsection \<open>Inserting a note\<close>

definition remove_rest :: "'p measure \<Rightarrow> int \<Rightarrow> 'p event option \<times> 'p measure" where
  "remove_rest m rest_index =
     (js_index (mnotes m) rest_index, m\<lparr>mnotes := js_splice (mnotes m) rest_index 1 []\<rparr>)"

text \<open>
  \<^verbatim>\<open>for(var i = rests.length - 1; i >= 0; i--) this.notes.splice(index, 0, rests[i])\<close>:
  the last rest is spliced in first.
\<close>

definition splice_rests :: "'p measure \<Rightarrow> int \<Rightarrow> 'p event list \<Rightarrow> 'p measure" where
  "splice_rests m note_to_split_index rests =
     m\<lparr>mnotes := foldr (\<lambda>rest ns. js_splice ns note_to_split_index 0 [rest]) rests (mnotes m)\<rparr>"

text \<open>
  When \<^verbatim>\<open>quantized_tick_position\<close> is undefined the start or end position is NaN, the
  loop of \<^verbatim>\<open>fill_space_with_rests\<close> does not run and there is no rest to splice in.
\<close>

definition insert_rests_before_note ::
  "'p config \<Rightarrow> 'p measure \<Rightarrow> int \<Rightarrow> int \<Rightarrow> 'p event option \<Rightarrow> note_info \<Rightarrow> 'p outcome option" where
  "insert_rests_before_note c m current_position note_to_split_index note_to_split note_info =
     (case note_to_split of
        None \<Rightarrow> Some (Inl (TypeError, m))
      | Some split \<Rightarrow>
          (case quantized_tick_position note_info of
             None \<Rightarrow> Some (Inr m)
           | Some end_position \<Rightarrow>
               (case fill_space_with_rests c m (current_position - ticks_of c split) end_position of
                  None \<Rightarrow> None
                | Some (Inl e) \<Rightarrow> Some (Inl (e, m))
                | Some (Inr rests) \<Rightarrow> Some (Inr (splice_rests m note_to_split_index rests)))))"

definition insert_rests_after_note ::
  "'p config \<Rightarrow> 'p measure \<Rightarrow> int \<Rightarrow> int \<Rightarrow> note_info \<Rightarrow> 'p outcome option" where
  "insert_rests_after_note c m current_position note_to_split_index note_info =
     (case quantized_tick_position note_info of
        None \<Rightarrow> Some (Inr m)
      | Some position \<Rightarrow>
          (case fill_space_with_rests c m
                  (position + note_length_to_ticks c (note_length note_info)) current_position of
             None \<Rightarrow> None
           | Some (Inl e) \<Rightarrow> Some (Inl (e, m))
           | Some (Inr rests) \<Rightarrow> Some (Inr (splice_rests m note_to_split_index rests))))"

definition insert_new_note :: "'p config \<Rightarrow> 'p measure \<Rightarrow> int \<Rightarrow> note_info \<Rightarrow> 'p measure" where
  "insert_new_note c m note_to_split_index note_info =
     m\<lparr>mnotes := js_splice (mnotes m) note_to_split_index 0
                    [Note (note_length note_info)
                       {translate_midi_number_to_pitch c (pitch note_info)}]\<rparr>"

definition remove_rest_and_insert_note ::
  "'p config \<Rightarrow> 'p measure \<Rightarrow> int \<Rightarrow> int \<Rightarrow> note_info \<Rightarrow> 'p outcome option" where
  "remove_rest_and_insert_note c m current_position note_to_split_index note_info =
     (case remove_rest m note_to_split_index of
        (None, m1) \<Rightarrow> Some (Inl (TypeError, m1))
      | (Some note_to_split, m1) \<Rightarrow>
          (case insert_rests_after_note c m1 (current_position + ticks_of c note_to_split)
                  note_to_split_index note_info of
             None \<Rightarrow> None
           | Some (Inl e) \<Rightarrow> Some (Inl e)
           | Some (Inr m2) \<Rightarrow> Some (Inr (insert_new_note c m2 note_to_split_index note_info))))"

definition split_rest_and_insert_note ::
  "'p config \<Rightarrow> 'p measure \<Rightarrow> int \<Rightarrow> int \<Rightarrow> note_info \<Rightarrow> 'p outcome option" where
  "split_rest_and_insert_note c m current_position note_to_split_index note_info =
     (case remove_rest m note_to_split_index of
        (note_to_split, m1) \<Rightarrow>
          (case insert_rests_after_note c m1 current_position note_to_split_index note_info of
             None \<Rightarrow> None
           | Some (Inl e) \<Rightarrow> Some (Inl e)
           | Some (Inr m2) \<Rightarrow>
               insert_rests_before_note c (insert_new_note c m2 note_to_split_index note_info)
                 current_position note_to_split_index note_to_split note_info))"

text \<open>
  The scan of \<^verbatim>\<open>place_note_in_measure\<close>, from index \<open>i\<close> with \<^verbatim>\<open>current_position\<close>. At
  \<open>i = notes.length\<close> the element is undefined, and calling a method or reading a
  property of it throws a TypeError. Comparing with an undefined
  \<^verbatim>\<open>quantized_tick_position\<close> is false.
\<close>

function place_loop ::
  "'p config \<Rightarrow> 'p measure \<Rightarrow> note_info \<Rightarrow> int \<Rightarrow> int \<Rightarrow> 'p outcome option" where
  "place_loop c m note_info i current_position =
     (if i \<le> int (length (mnotes m)) then
        (if Some current_position = quantized_tick_position note_info then
           (case js_index (mnotes m) i of
              None \<Rightarrow> Some (Inl (TypeError, m))
            | Some e \<Rightarrow>
                if is_note e then
                  Some (Inr (m\<lparr>mnotes := (mnotes m)[nat i := event_add_note c e note_info]\<rparr>))
                else if is_rest e then
                  remove_rest_and_insert_note c m current_position i note_info
                else place_loop c m note_info (i + 1) (current_position + ticks_of c e))
         else if (case quantized_tick_position note_info of
                    None \<Rightarrow> False | Some note_position \<Rightarrow> current_position > note_position) then
           split_rest_and_insert_note c m current_position (i - 1) note_info
         else
           (case js_index (mnotes m) i of
              None \<Rightarrow> Some (Inl (TypeError, m))
            | Some e \<Rightarrow> place_loop c m note_info (i + 1) (current_position + ticks_of c e)))
      else Some (Inr m))"
  by pat_completeness auto
termination
  by (relation "measure (\<lambda>(c, m, ni, i, cur). nat (int (length (mnotes m)) + 1 - i))") auto

definition place_note_in_measure :: "'p config \<Rightarrow> 'p measure \<Rightarrow> note_info \<Rightarrow> 'p outcome option" where
  "place_note_in_measure c m note_info = place_loop c m note_info 0 0"

text \<open>
  \<^verbatim>\<open>add_note\<close> returns the new value of the global \<^verbatim>\<open>quantized_ticks_position\<close>, the
  request with its field \<^verbatim>\<open>quantized_tick_position\<close> assigned, and the outcome:
  \<open>Inr\<close> is \<^verbatim>\<open>return true\<close>.
\<close>

definition add_note ::
  "'p config \<Rightarrow> int option \<Rightarrow> 'p measure \<Rightarrow> note_info \<Rightarrow>
     (int option \<times> note_info \<times> 'p outcome) option" where
  "add_note c g m note_info =
     (case quantize_position c m g (quantization note_info) (x_position note_info) of
        None \<Rightarrow> None
      | Some None \<Rightarrow> Some (None, note_info, Inl (ReferenceError, m))
      | Some (Some t) \<Rightarrow>
          (case place_note_in_measure c m (note_info\<lparr>quantized_tick_position := Some t\<rparr>) of
             None \<Rightarrow> None
           | Some r \<Rightarrow> Some (Some t, note_info\<lparr>quantized_tick_position := Some t\<rparr>, r)))"

subsection \<open>Removing a note\<close>

text \<open>
  The scan of \<^verbatim>\<open>remove_note_from_measure\<close> and the \<^verbatim>\<open>make_rest\<close> that follows it: the
  loop leaves with \<open>i\<close> one past the note it has found, so \<^verbatim>\<open>this.notes[i-1]\<close> is that
  note.
\<close>

function remove_loop :: "'p config \<Rightarrow> 'p measure \<Rightarrow> note_info \<Rightarrow> int \<Rightarrow> int \<Rightarrow> 'p outcome" where
  "remove_loop c m note_info i current_position =
     (if i \<le> int (length (mnotes m)) then
        (case js_index (mnotes m) i of
           None \<Rightarrow> Inl (TypeError, m)
         | Some e \<Rightarrow>
             if Some current_position = quantized_tick_position note_info \<and> is_note e then
               (case event_remove_note c e note_info of
                  (e', empty_note) \<Rightarrow>
                    Inr (m\<lparr>mnotes := (mnotes m)[nat i := (if empty_note then make_rest e' else e')]\<rparr>))
             else remove_loop c m note_info (i + 1) (current_position + ticks_of c e))
      else Inr m)"
  by pat_completeness auto
termination
  by (relation "measure (\<lambda>(c, m, ni, i, cur). nat (int (length (mnotes m)) + 1 - i))") auto

definition remove_note_from_measure :: "'p config \<Rightarrow> 'p measure \<Rightarrow> note_info \<Rightarrow> 'p outcome" where
  "remove_note_from_measure c m note_info = remove_loop c m note_info 0 0"

definition remove_note :: "'p config \<Rightarrow> 'p measure \<Rightarrow> note_info \<Rightarrow> 'p outcome" where
  "remove_note c m note_info = remove_note_from_measure c m note_info"

subsection \<open>Sequences of public calls\<close>

text \<open>
  A call of \<^verbatim>\<open>add_note\<close> or \<^verbatim>\<open>remove_note\<close>. The state between two calls is the global
  \<^verbatim>\<open>quantized_ticks_position\<close> and the measure; after a call that throws, the measure
  is the one the exception left behind.
\<close>

datatype call = Add note_info | Remove note_info

fun measure_after :: "'p outcome \<Rightarrow> 'p measure" where
  "measure_after (Inl (e, m)) = m"
| "measure_after (Inr m) = m"

fun step :: "'p config \<Rightarrow> int option \<times> 'p measure \<Rightarrow> call \<Rightarrow> (int option \<times> 'p measure) option" where
  "step c (g, m) (Add note_info) =
     (case add_note c g m note_info of
        None \<Rightarrow> None
      | Some (g', note_info', r) \<Rightarrow> Some (g', measure_after r))"
| "step c (g, m) (Remove note_info) = Some (g, measure_after (remove_note c m note_info))"

text \<open>The states before and after each call of a sequence, in order.\<close>

fun run :: "'p config \<Rightarrow> int option \<times> 'p measure \<Rightarrow> call list \<Rightarrow> (int option \<times> 'p measure) list option" where
  "run c st [] = Some [st]"
| "run c st (x # xs) =
     (case step c st x of
        None \<Rightarrow> None
      | Some st' \<Rightarrow> (case run c st' xs of None \<Rightarrow> None | Some sts \<Rightarrow> Some (st # sts)))"

subsection \<open>The vocabulary of the properties\<close>

text \<open>The sum of the tick lengths of a sequence of events.\<close>

definition sum_of_ticks :: "'p config \<Rightarrow> 'p event list \<Rightarrow> int" where
  "sum_of_ticks c es = sum_list (map (ticks_of c) es)"

text \<open>A note length is supported when \<^verbatim>\<open>note_lengths\<close> holds it.\<close>

definition supported :: "'p config \<Rightarrow> int \<Rightarrow> bool" where
  "supported c d = (d \<in> snd ` set (note_lengths c))"

text \<open>
  \<open>s\<close> is the smallest supported tick unit: some supported length is worth \<open>s\<close> ticks,
  and every supported length is worth a positive multiple of \<open>s\<close>.
\<close>

definition tick_unit :: "'p config \<Rightarrow> int \<Rightarrow> bool" where
  "tick_unit c s =
     ((\<exists>entry \<in> set (note_lengths c). note_length_to_ticks c (snd entry) = s) \<and>
      (\<forall>entry \<in> set (note_lengths c).
         0 < note_length_to_ticks c (snd entry) \<and> s dvd note_length_to_ticks c (snd entry)))"

text \<open>The duration invariant, for a measure all of whose events have a supported length.\<close>

definition valid_measure :: "'p config \<Rightarrow> 'p measure \<Rightarrow> bool" where
  "valid_measure c m =
     (sum_of_ticks c (mnotes m) = num_ticks m \<and>
      (\<forall>e \<in> set (mnotes m). supported c (ev_length e)))"

text \<open>
  A well-formed request: a supported note length, a supported resolution and a
  fractional position in \<open>[0, 1)\<close>.
\<close>

definition valid_request :: "'p config \<Rightarrow> note_info \<Rightarrow> bool" where
  "valid_request c note_info =
     (supported c (note_length note_info) \<and> supported c (quantization note_info) \<and>
      0 \<le> x_position note_info \<and> x_position note_info < 1)"

text \<open>
  \<open>note_at c cur es t\<close>: an event of \<open>es\<close> (the first of which starts at tick \<open>cur\<close>) is a
  Note that starts at tick \<open>t\<close>.
\<close>

fun note_at :: "'p config \<Rightarrow> int \<Rightarrow> 'p event list \<Rightarrow> int \<Rightarrow> bool" where
  "note_at c cur [] t = False"
| "note_at c cur (e # es) t = ((cur = t \<and> is_note e) \<or> note_at c (cur + ticks_of c e) es t)"

text \<open>
  \<open>fits_from c cur es t n\<close>: a note of \<open>n\<close> ticks placed at tick \<open>t\<close> fits. Either \<open>t\<close> is the
  start of a Note (the pitch joins that Note), or the event that holds tick \<open>t\<close> ends
  no earlier than tick \<open>t + n\<close>.
\<close>

fun fits_from :: "'p config \<Rightarrow> int \<Rightarrow> 'p event list \<Rightarrow> int \<Rightarrow> int \<Rightarrow> bool" where
  "fits_from c cur [] t n = False"
| "fits_from c cur (e # es) t n =
     (if t = cur \<and> is_note e then True
      else if t < cur + ticks_of c e then t + n \<le> cur + ticks_of c e
      else fits_from c (cur + ticks_of c e) es t n)"

text \<open>The request, once quantized, fits into the measure.\<close>

definition add_fits :: "'p config \<Rightarrow> 'p measure \<Rightarrow> note_info \<Rightarrow> bool" where
  "add_fits c m note_info =
     (case quantize_position c m None (quantization note_info) (x_position note_info) of
        Some (Some t) \<Rightarrow>
          fits_from c 0 (mnotes m) t (note_length_to_ticks c (note_length note_info))
      | _ \<Rightarrow> False)"

text \<open>
  A sequence of calls each of whose \<^verbatim>\<open>add_note\<close> requests is well formed and fits into
  the measure as it is when the call is made. Nothing is asked of a \<^verbatim>\<open>remove_note\<close>
  request, nor of the calls that would follow a call that does not return.
\<close>

fun call_ok :: "'p config \<Rightarrow> 'p measure \<Rightarrow> call \<Rightarrow> bool" where
  "call_ok c m (Add note_info) = (valid_request c note_info \<and> add_fits c m note_info)"
| "call_ok c m (Remove note_info) = True"

fun calls_ok :: "'p config \<Rightarrow> int option \<times> 'p measure \<Rightarrow> call list \<Rightarrow> bool" where
  "calls_ok c st [] = True"
| "calls_ok c st (x # xs) =
     (call_ok c (snd st) x \<and>
      (case step c st x of None \<Rightarrow> True | Some st' \<Rightarrow> calls_ok c st' xs))"

text \<open>
  The rest length that section 4.2 of the spec describes: among the supported lengths
  \<open>d\<close> with \<open>d \<ge> ceiling\<close> and at most \<open>remaining\<close> ticks, the first in enumeration order
  of those that leave the least of \<open>remaining\<close>.
\<close>

definition is_candidate :: "'p config \<Rightarrow> int \<Rightarrow> int \<Rightarrow> int \<Rightarrow> bool" where
  "is_candidate c ceil_length remaining d =
     (d \<ge> ceil_length \<and> note_length_to_ticks c d \<le> remaining)"

definition closest_fit :: "'p config \<Rightarrow> int \<Rightarrow> int \<Rightarrow> int option" where
  "closest_fit c ceil_length remaining =
     find (\<lambda>d. is_candidate c ceil_length remaining d \<and>
               (\<forall>e \<in> set (map snd (note_lengths c)).
                  is_candidate c ceil_length remaining e \<longrightarrow>
                  remaining - note_length_to_ticks c d \<le> remaining - note_length_to_ticks c e))
          (map snd (note_lengths c))"

section \<open>Properties\<close>

declare quantize_loop.simps [simp del] place_loop.simps [simp del] remove_loop.simps [simp del]

text \<open>Floors and ceilings of rational numerals, for evaluating \<open>round_double\<close>.\<close>

lemma floor_rat_numeral: "\<lfloor>(numeral a :: rat) / numeral b\<rfloor> = numeral a div numeral b"
  using floor_divide_of_int_eq [of "numeral a" "numeral b", where ?'a = rat] by simp

lemma floor_rat_one: "\<lfloor>(1 :: rat) / numeral b\<rfloor> = 1 div numeral b"
  using floor_divide_of_int_eq [of 1 "numeral b", where ?'a = rat] by simp

lemma ceiling_rat_numeral: "\<lceil>(numeral a :: rat) / numeral b\<rceil> = - (- numeral a div numeral b)"
  using ceiling_divide_eq_div [of "numeral a" "numeral b", where ?'a = rat] by simp

lemma ceiling_rat_one: "\<lceil>(1 :: rat) / numeral b\<rceil> = - (- 1 div numeral b)"
  using ceiling_divide_eq_div [of 1 "numeral b", where ?'a = rat] by simp

text \<open>\<open>round_double\<close> and \<open>bitlen\<close> unfolded at literals only.\<close>

lemmas round_double_literals =
  round_double_def [of 0] round_double_def [of 1] round_double_def [of "numeral a"]
  round_double_def [of "- numeral a"] round_double_def [of "- 1"]
  round_double_def [of "numeral a / numeral b"] round_double_def [of "- (numeral a / numeral b)"]
  round_double_def [of "- numeral a / numeral b"] round_double_def [of "1 / numeral b"]
  round_double_def [of "- (1 / numeral b)"] round_double_def [of "- 1 / numeral b"]
  for a b

lemmas bitlen_literals = compute_bitlen [of 1] compute_bitlen [of "numeral a"] for a

lemmas eval_defs =
  Measure_def create_empty_measure_def fill_space_with_rests_def fill_loop.simps
  optimal_rest_length_def calculate_beat_level_def beat_level_step_def rest_length_step_def
  scenario_def add_note_def quantize_position_def quantize_loop.simps
  place_note_in_measure_def place_loop.simps split_rest_and_insert_note_def
  remove_rest_and_insert_note_def remove_rest_def insert_rests_after_note_def
  insert_rests_before_note_def insert_new_note_def splice_rests_def js_index_def
  js_splice_def ticks_of_def remove_note_def remove_note_from_measure_def remove_loop.simps
  sum_of_ticks_def round_double_literals round_half_even_def binade_def scale2_def
  overflows_def bitlen_literals floor_rat_numeral floor_rat_one ceiling_rat_numeral
  ceiling_rat_one

subsection \<open>The worked scenario\<close>

text \<open>
  C2. With the tick table of the worked scenario, a measure constructed with 4 beats
  of quarter-note value has \<open>num_ticks = 16\<close> and the single event \<open>Rest(whole)\<close>; after
  \<^verbatim>\<open>add_note\<close> with pitch \<open>P\<close>, length quarter, resolution quarter and position 0.5 the
  quantized tick is 8 and the events are \<open>Rest(half), Note(quarter, {P}), Rest(quarter)\<close>.
\<close>

theorem worked_scenario:
  "Measure (scenario tr) \<lparr>num_beats = 4, beat_value = 4\<rparr> =
     Some (Inr \<lparr>num_beats = 4, beat_value = 4, mnotes = [Rest 1], num_ticks = 16\<rparr>) \<and>
   add_note (scenario tr) g \<lparr>num_beats = 4, beat_value = 4, mnotes = [Rest 1], num_ticks = 16\<rparr>
       \<lparr>pitch = P, note_length = 4, quantization = 4, x_position = 1 / 2,
        quantized_tick_position = old\<rparr> =
     Some (Some 8,
           \<lparr>pitch = P, note_length = 4, quantization = 4, x_position = 1 / 2,
            quantized_tick_position = Some 8\<rparr>,
           Inr \<lparr>num_beats = 4, beat_value = 4,
                mnotes = [Rest 2, Note 4 {tr P}, Rest 4], num_ticks = 16\<rparr>)"
  by (simp add: eval_defs)

subsection \<open>The beat level is at most every length that qualifies\<close>

lemma beat_level_fold_le:
  "fold (beat_level_step c m t) ds b \<le> b"
proof (induction ds arbitrary: b)
  case Nil
  then show ?case by simp
next
  case (Cons d ds)
  have "beat_level_step c m t d b \<le> b"
    by (simp add: beat_level_step_def Let_def)
  with Cons.IH [of "beat_level_step c m t d b"] show ?case by simp
qed

lemma beat_level_fold_le_qualifying:
  assumes "entry \<in> set ds"
    and "note_length_to_ticks c (snd entry) \<noteq> 0"
    and "t mod note_length_to_ticks c (snd entry) = 0"
    and "note_length_to_ticks c (snd entry) \<le> num_ticks m"
  shows "fold (beat_level_step c m t) ds b \<le> snd entry"
  using assms(1)
proof (induction ds arbitrary: b)
  case Nil
  then show ?case by simp
next
  case (Cons d ds)
  show ?case
  proof (cases "entry = d")
    case True
    have "beat_level_step c m t d b \<le> snd entry"
      using assms(2-4) True by (simp add: beat_level_step_def Let_def)
    with beat_level_fold_le [of c m t ds "beat_level_step c m t d b"] show ?thesis by simp
  next
    case False
    with Cons.prems have "entry \<in> set ds" by simp
    from Cons.IH [OF this] show ?thesis by simp
  qed
qed

lemma calculate_beat_level_le:
  assumes "entry \<in> set (note_lengths c)"
    and "note_length_to_ticks c (snd entry) \<noteq> 0"
    and "t mod note_length_to_ticks c (snd entry) = 0"
    and "note_length_to_ticks c (snd entry) \<le> num_ticks m"
  shows "calculate_beat_level c m t \<le> snd entry"
  unfolding calculate_beat_level_def using assms by (rule beat_level_fold_le_qualifying)

subsection \<open>When optimal\_rest\_length finds a length\<close>

lemma rest_length_fold_sound:
  "snd (fold (rest_length_step c bp r) ds st) = Some d \<Longrightarrow>
   snd st = Some d \<or> (d \<in> snd ` set ds \<and> d \<ge> bp \<and> note_length_to_ticks c d \<le> r)"
proof (induction ds arbitrary: st)
  case Nil
  then show ?case by simp
next
  case (Cons x xs)
  from Cons.prems have "snd (fold (rest_length_step c bp r) xs (rest_length_step c bp r x st)) = Some d"
    by simp
  from Cons.IH [OF this] show ?case
    by (auto simp: rest_length_step_def Let_def split: if_splits)
qed

lemma rest_length_fold_complete:
  "snd st \<noteq> None \<or>
   (\<exists>e \<in> set ds. snd e \<ge> bp \<and> note_length_to_ticks c (snd e) \<le> r \<and>
                  r - note_length_to_ticks c (snd e) < fst st) \<Longrightarrow>
   snd (fold (rest_length_step c bp r) ds st) \<noteq> None"
proof (induction ds arbitrary: st)
  case Nil
  then show ?case by simp
next
  case (Cons x xs)
  have "snd (rest_length_step c bp r x st) \<noteq> None \<or>
        (\<exists>e \<in> set xs. snd e \<ge> bp \<and> note_length_to_ticks c (snd e) \<le> r \<and>
                  r - note_length_to_ticks c (snd e) < fst (rest_length_step c bp r x st))"
    using Cons.prems by (auto simp: rest_length_step_def Let_def)
  from Cons.IH [OF this] show ?case by simp
qed

lemma optimal_rest_length_Some:
  assumes "e \<in> set (note_lengths c)" and "snd e \<ge> bp"
    and "note_length_to_ticks c (snd e) \<le> r"
    and "r - note_length_to_ticks c (snd e) < num_ticks m"
  obtains d where "optimal_rest_length c m bp r = Some d" and "supported c d"
    and "d \<ge> bp" and "note_length_to_ticks c d \<le> r"
proof -
  have "snd (fold (rest_length_step c bp r) (note_lengths c) (num_ticks m, None)) \<noteq> None"
    by (rule rest_length_fold_complete) (use assms in auto)
  then obtain d where d: "optimal_rest_length c m bp r = Some d"
    by (auto simp: optimal_rest_length_def)
  from rest_length_fold_sound [OF d [unfolded optimal_rest_length_def]]
  have "d \<in> snd ` set (note_lengths c) \<and> d \<ge> bp \<and> note_length_to_ticks c d \<le> r" by simp
  with d that show thesis by (simp add: supported_def)
qed

subsection \<open>Filling a span with rests\<close>

lemma tick_unit_pos: "tick_unit c s \<Longrightarrow> 0 < s"
  by (auto simp: tick_unit_def)

lemma tick_unit_supported:
  "tick_unit c s \<Longrightarrow> supported c d \<Longrightarrow> 0 < note_length_to_ticks c d \<and> s dvd note_length_to_ticks c d"
  by (auto simp: tick_unit_def supported_def)

lemma fill_loop_total:
  assumes unit: "tick_unit c s" and a: "s dvd a"
  shows "s dvd left \<Longrightarrow> 0 \<le> left \<Longrightarrow> left \<le> num_ticks m \<Longrightarrow>
         \<exists>rs. fill_loop c m a left acc = Some (Inr (acc @ rs)) \<and>
              (\<forall>e \<in> set rs. is_rest e \<and> supported c (ev_length e)) \<and>
              sum_of_ticks c rs = left"
proof (induction "nat left" arbitrary: left acc rule: less_induct)
  case less
  show ?case
  proof (cases "left > 0")
    case False
    with less.prems have "left = 0" by simp
    then show ?thesis
      by (subst fill_loop.simps) (simp add: sum_of_ticks_def)
  next
    case True
    from unit obtain u where u: "u \<in> set (note_lengths c)" "note_length_to_ticks c (snd u) = s"
      by (auto simp: tick_unit_def)
    have s_pos: "0 < s" using unit by (rule tick_unit_pos)
    from less.prems(1) True s_pos have s_le: "s \<le> left"
      by (simp add: zdvd_imp_le)
    have "calculate_beat_level c m a \<le> snd u"
    proof (rule calculate_beat_level_le [OF u(1)])
      show "note_length_to_ticks c (snd u) \<noteq> 0" using u(2) s_pos by simp
      show "a mod note_length_to_ticks c (snd u) = 0" using u(2) a by simp
      show "note_length_to_ticks c (snd u) \<le> num_ticks m" using u(2) s_le less.prems(3) by simp
    qed
    then obtain d where d: "optimal_rest_length c m (calculate_beat_level c m a) left = Some d"
      "supported c d" "note_length_to_ticks c d \<le> left"
      using u s_le s_pos less.prems(3)
      by (elim optimal_rest_length_Some [of u c "calculate_beat_level c m a" left m]) auto
    from tick_unit_supported [OF unit d(2)]
    have td: "0 < note_length_to_ticks c d" "s dvd note_length_to_ticks c d" by simp_all
    let ?left' = "left - note_length_to_ticks c d"
    have "nat ?left' < nat left" using td(1) True by simp
    moreover have "s dvd ?left'" using less.prems(1) td(2) by (rule dvd_diff)
    moreover have "0 \<le> ?left'" using d(3) by simp
    moreover have "?left' \<le> num_ticks m" using td(1) less.prems(3) by simp
    ultimately obtain rs where rs:
      "fill_loop c m a ?left' (acc @ [Rest d]) = Some (Inr ((acc @ [Rest d]) @ rs))"
      "\<forall>e \<in> set rs. is_rest e \<and> supported c (ev_length e)"
      "sum_of_ticks c rs = ?left'"
      using less.hyps [of ?left' "acc @ [Rest d]"] by blast
    have "fill_loop c m a left acc = Some (Inr (acc @ (Rest d # rs)))"
      by (subst fill_loop.simps) (simp add: True d(1) rs(1))
    moreover have "\<forall>e \<in> set (Rest d # rs). is_rest e \<and> supported c (ev_length e)"
      using rs(2) d(2) by simp
    moreover have "sum_of_ticks c (Rest d # rs) = left"
      using rs(3) by (simp add: sum_of_ticks_def ticks_of_def)
    ultimately show ?thesis by blast
  qed
qed

text \<open>
  C5. For ticks \<open>a\<close> and \<open>b\<close> with \<open>0 \<le> a \<le> b \<le> num_ticks\<close>, both multiples of the smallest
  supported tick unit, \<^verbatim>\<open>fill_space_with_rests(a, b)\<close> returns, and what it returns is a
  sequence of Rest events whose tick lengths sum to \<open>b - a\<close>.
\<close>

theorem fill_space_with_rests_exact:
  assumes "tick_unit c s" and "s dvd a" and "s dvd b" and "0 \<le> a" and "a \<le> b" and "b \<le> num_ticks m"
  shows "\<exists>rests. fill_space_with_rests c m a b = Some (Inr rests) \<and>
                 (\<forall>e \<in> set rests. is_rest e) \<and> sum_of_ticks c rests = b - a"
proof -
  have "s dvd b - a" using assms(3,2) by (rule dvd_diff)
  moreover have "0 \<le> b - a" "b - a \<le> num_ticks m" using assms(4-6) by simp_all
  ultimately obtain rs where "fill_loop c m a (b - a) [] = Some (Inr ([] @ rs))"
      "\<forall>e \<in> set rs. is_rest e \<and> supported c (ev_length e)" "sum_of_ticks c rs = b - a"
    using fill_loop_total [OF assms(1,2), of "b - a" m "[]"] by blast
  then show ?thesis by (auto simp: fill_space_with_rests_def)
qed


theorem fill_space_with_rests_exact_witness:
  "tick_unit (scenario (\<lambda>n. n :: int)) 1 \<and>
   (\<exists>rests. fill_space_with_rests (scenario (\<lambda>n. n :: int))
               \<lparr>num_beats = 4, beat_value = 4, mnotes = [Rest 1], num_ticks = 16\<rparr> 4 16 =
               Some (Inr rests) \<and>
             (\<forall>e \<in> set rests. is_rest e) \<and>
             sum_of_ticks (scenario (\<lambda>n. n :: int)) rests = 16 - 4)"
proof -
  have unit: "tick_unit (scenario (\<lambda>n. n :: int)) 1"
    by (simp add: tick_unit_def scenario_def)
  show ?thesis
    using unit
      fill_space_with_rests_exact [OF unit, of 4 16
        "\<lparr>num_beats = 4, beat_value = 4, mnotes = [Rest 1], num_ticks = 16\<rparr>"]
    by simp
qed

subsection \<open>optimal\_rest\_length against the closest fit of the spec\<close>

lemma ex_least_candidate:
  fixes f :: "'a \<Rightarrow> int"
  assumes "e0 \<in> set ys" and "P e0"
  shows "\<exists>d \<in> set ys. P d \<and> (\<forall>e \<in> set ys. P e \<longrightarrow> f d \<le> f e)"
proof -
  let ?S = "f ` {e \<in> set ys. P e}"
  have fin: "finite ?S" by simp
  have ne: "?S \<noteq> {}" using assms by auto
  from Min_in [OF fin ne] obtain d where d: "d \<in> set ys" "P d" "f d = Min ?S" by auto
  have "\<forall>e \<in> set ys. P e \<longrightarrow> f d \<le> f e"
  proof (intro ballI impI)
    fix e assume "e \<in> set ys" "P e"
    then have "f e \<in> ?S" by simp
    from Min_le [OF fin this] d(3) show "f d \<le> f e" by simp
  qed
  with d show ?thesis by blast
qed

lemma rest_length_fold_find:
  "fold (rest_length_step c bp r) ds st =
     (case find (\<lambda>d. is_candidate c bp r d \<and> r - note_length_to_ticks c d < fst st \<and>
                     (\<forall>e \<in> set (map snd ds). is_candidate c bp r e \<longrightarrow>
                        r - note_length_to_ticks c d \<le> r - note_length_to_ticks c e))
                (map snd ds) of
        None \<Rightarrow> st
      | Some d \<Rightarrow> (r - note_length_to_ticks c d, Some d))"
proof (induction ds arbitrary: st)
  case Nil
  then show ?case by simp
next
  case (Cons x xs)
  define t where "t = note_length_to_ticks c"
  define Q where "Q = (\<lambda>mn ys d. is_candidate c bp r d \<and> r - t d < (mn::int) \<and>
                     (\<forall>e \<in> set ys. is_candidate c bp r e \<longrightarrow> r - t d \<le> r - t e))"
  let ?d0 = "snd x"
  let ?st1 = "rest_length_step c bp r x st"
  have IH: "fold (rest_length_step c bp r) xs ?st1 =
     (case find (Q (fst ?st1) (map snd xs)) (map snd xs) of
        None \<Rightarrow> ?st1 | Some d \<Rightarrow> (r - t d, Some d))"
    unfolding Q_def t_def by (rule Cons.IH)
  have goal: "fold (rest_length_step c bp r) xs ?st1 =
     (case find (Q (fst st) (?d0 # map snd xs)) (?d0 # map snd xs) of
        None \<Rightarrow> st | Some d \<Rightarrow> (r - t d, Some d))"
  proof (cases "is_candidate c bp r ?d0 \<and> r - t ?d0 < fst st")
    case False
    then have st1: "?st1 = st"
      by (auto simp: rest_length_step_def Let_def is_candidate_def t_def)
    have "\<not> Q (fst st) (?d0 # map snd xs) ?d0" using False by (auto simp: Q_def)
    moreover have "find (Q (fst st) (?d0 # map snd xs)) (map snd xs) =
                   find (Q (fst st) (map snd xs)) (map snd xs)"
      by (rule find_cong) (use False in \<open>auto simp: Q_def\<close>)
    ultimately show ?thesis using IH st1 by (simp split: option.splits)
  next
    case True
    then have st1: "?st1 = (r - t ?d0, Some ?d0)"
      by (auto simp: rest_length_step_def Let_def is_candidate_def t_def)
    show ?thesis
    proof (cases "\<forall>e \<in> set (map snd xs). is_candidate c bp r e \<longrightarrow> r - t ?d0 \<le> r - t e")
      case A1: True
      have "Q (fst st) (?d0 # map snd xs) ?d0" using True A1 by (auto simp: Q_def)
      moreover have "find (Q (r - t ?d0) (map snd xs)) (map snd xs) = None"
        unfolding find_None_iff using A1 by (auto simp: Q_def)
      ultimately show ?thesis using IH st1 by (simp split: option.splits)
    next
      case A2: False
      have "\<not> Q (fst st) (?d0 # map snd xs) ?d0" using A2 by (auto simp: Q_def)
      moreover have "find (Q (fst st) (?d0 # map snd xs)) (map snd xs) =
                     find (Q (r - t ?d0) (map snd xs)) (map snd xs)"
      proof (rule find_cong)
        fix d assume "d \<in> set (map snd xs)"
        from A2 obtain e0 where e0: "e0 \<in> set (map snd xs)" "is_candidate c bp r e0"
          "r - t e0 < r - t ?d0" by (force simp: not_le)
        show "Q (fst st) (?d0 # map snd xs) d = Q (r - t ?d0) (map snd xs) d"
        proof
          assume q: "Q (fst st) (?d0 # map snd xs) d"
          then have "r - t d \<le> r - t e0" using e0 by (auto simp: Q_def)
          with e0(3) q show "Q (r - t ?d0) (map snd xs) d" by (auto simp: Q_def)
        next
          assume "Q (r - t ?d0) (map snd xs) d"
          with True show "Q (fst st) (?d0 # map snd xs) d" by (auto simp: Q_def)
        qed
      qed simp
      moreover have "find (Q (r - t ?d0) (map snd xs)) (map snd xs) \<noteq> None"
      proof -
        from A2 obtain e0 where e0: "e0 \<in> set (map snd xs)"
          "is_candidate c bp r e0 \<and> r - t e0 < r - t ?d0" by (force simp: not_le)
        from ex_least_candidate [of e0 "map snd xs"
              "\<lambda>e. is_candidate c bp r e \<and> r - t e < r - t ?d0" "\<lambda>e. r - t e", OF e0]
        obtain d where d: "d \<in> set (map snd xs)" "is_candidate c bp r d" "r - t d < r - t ?d0"
          "\<forall>e \<in> set (map snd xs). is_candidate c bp r e \<and> r - t e < r - t ?d0 \<longrightarrow>
             r - t d \<le> r - t e" by blast
        have "Q (r - t ?d0) (map snd xs) d"
          unfolding Q_def using d by (metis (no_types, lifting) not_le order.strict_implies_order order.strict_trans2 order_less_le_trans linorder_le_cases)
        with d(1) show ?thesis unfolding find_None_iff by blast
      qed
      ultimately show ?thesis using IH st1 by (auto split: option.splits)
    qed
  qed
  then show ?case unfolding Q_def t_def by simp
qed

text \<open>
  C6 as stated fails: in the 16-tick measure, with ceiling sixteenth and a span of 17
  ticks, the sixteenth is a candidate and the closest fit, and \<^verbatim>\<open>optimal_rest_length\<close>
  returns \<^verbatim>\<open>null\<close>, since the difference 16 is not below the seed \<^verbatim>\<open>num_ticks\<close>.
\<close>

theorem optimal_rest_length_long_span:
  "optimal_rest_length (scenario (\<lambda>n. n :: int))
     \<lparr>num_beats = 4, beat_value = 4, mnotes = [Rest 1], num_ticks = 16\<rparr> 16 17 = None \<and>
   closest_fit (scenario (\<lambda>n. n :: int)) 16 17 = Some 16"
  by (simp add: eval_defs closest_fit_def is_candidate_def)

text \<open>
  C6, amended. When every supported length is worth at least one tick and the span
  \<open>r\<close> is at most \<^verbatim>\<open>num_ticks\<close>, \<^verbatim>\<open>optimal_rest_length(c, r)\<close> returns the closest fit:
  among the supported lengths \<open>d \<ge> c\<close> of at most \<open>r\<close> ticks, the first in enumeration
  order of those that minimize \<open>r - ticks d\<close>, and \<^verbatim>\<open>null\<close> when there is no such length.
\<close>

theorem optimal_rest_length_closest_fit:
  assumes "\<forall>entry \<in> set (note_lengths c). 0 < note_length_to_ticks c (snd entry)"
    and "r \<le> num_ticks m"
  shows "optimal_rest_length c m bp r = closest_fit c bp r"
proof -
  let ?P = "\<lambda>d. is_candidate c bp r d \<and> r - note_length_to_ticks c d < fst (num_ticks m, None :: int option) \<and>
                     (\<forall>e \<in> set (map snd (note_lengths c)). is_candidate c bp r e \<longrightarrow>
                        r - note_length_to_ticks c d \<le> r - note_length_to_ticks c e)"
  have "find ?P (map snd (note_lengths c)) = closest_fit c bp r"
    unfolding closest_fit_def
    by (rule find_cong) (use assms in \<open>fastforce\<close>)+
  then show ?thesis
    unfolding optimal_rest_length_def rest_length_fold_find [of c bp r "note_lengths c" "(num_ticks m, None)"]
    by (auto split: option.splits)
qed

theorem optimal_rest_length_closest_fit_witness:
  "optimal_rest_length (scenario (\<lambda>n. n :: int))
     \<lparr>num_beats = 4, beat_value = 4, mnotes = [Rest 1], num_ticks = 16\<rparr> 4 12 =
   closest_fit (scenario (\<lambda>n. n :: int)) 4 12 \<and>
   closest_fit (scenario (\<lambda>n. n :: int)) 4 12 = Some 4"
proof -
  have pos: "\<forall>entry \<in> set (note_lengths (scenario (\<lambda>n. n :: int))).
      0 < note_length_to_ticks (scenario (\<lambda>n. n :: int)) (snd entry)"
    by (simp add: scenario_def)
  have "closest_fit (scenario (\<lambda>n. n :: int)) 4 12 = Some 4"
    by (simp add: closest_fit_def is_candidate_def scenario_def)
  with optimal_rest_length_closest_fit [OF pos, of 12
      "\<lparr>num_beats = 4, beat_value = 4, mnotes = [Rest 1], num_ticks = 16\<rparr>" 4]
  show ?thesis by simp
qed

subsection \<open>calculate\_beat\_level on a measure shorter than its lengths' encodings\<close>

text \<open>
  C4 at a failing input. In a measure of 3 beats of quarter-note value (12 ticks),
  the sixteenth (encoding 16, 1 tick) is a supported length whose tick count divides
  tick 1 and is at most \<^verbatim>\<open>num_ticks\<close>, and it is the only one; yet
  \<^verbatim>\<open>calculate_beat_level(1)\<close> returns 12, the seed \<^verbatim>\<open>num_ticks\<close>, which is no supported
  length: the encoding 16 is not below the seed 12.
\<close>

theorem calculate_beat_level_returns_seed:
  "Measure (scenario (\<lambda>n. n :: int)) \<lparr>num_beats = 3, beat_value = 4\<rparr> =
     Some (Inr \<lparr>num_beats = 3, beat_value = 4, mnotes = [Rest 2, Rest 4], num_ticks = 12\<rparr>) \<and>
   calculate_beat_level (scenario (\<lambda>n. n :: int))
     \<lparr>num_beats = 3, beat_value = 4, mnotes = [Rest 2, Rest 4], num_ticks = 12\<rparr> 1 = 12 \<and>
   \<not> supported (scenario (\<lambda>n. n :: int)) 12 \<and>
   supported (scenario (\<lambda>n. n :: int)) 16 \<and>
   1 mod note_length_to_ticks (scenario (\<lambda>n. n :: int)) 16 = 0 \<and>
   note_length_to_ticks (scenario (\<lambda>n. n :: int)) 16 \<le> 12 \<and>
   [d \<leftarrow> map snd (note_lengths (scenario (\<lambda>n. n :: int))).
      1 mod note_length_to_ticks (scenario (\<lambda>n. n :: int)) d = 0] = [16]"
  by (simp add: eval_defs supported_def)

subsection \<open>What quantize\_position returns\<close>

text \<open>
  Whether the loop assigns the global, and what it assigns, does not depend on the
  value the global had: either the loop leaves it alone, or it ends with a multiple
  \<open>k * step\<close> of the step, \<open>k\<close> being an index of the loop.
\<close>

lemma quantize_loop_global:
  "(\<exists>mn'. quantize_loop q n p i (mn, g) = (mn', g) \<and>
          quantize_loop q n p i (mn, g') = (mn', g')) \<or>
   (\<exists>mn' k. i \<le> k \<and> quantize_loop q n p i (mn, g) = (mn', Some (k * q)) \<and>
            quantize_loop q n p i (mn, g') = (mn', Some (k * q)))"
proof (induction "nat (\<lceil>n\<rceil> - i)" arbitrary: i mn g g' rule: less_induct)
  case less
  show ?case
  proof (cases "of_int i < n")
    case False
    then have "quantize_loop q n p i (mn, g) = (mn, g)"
      and "quantize_loop q n p i (mn, g') = (mn, g')"
      by (simp_all add: quantize_loop.simps)
    then show ?thesis by blast
  next
    case True
    define td where "td = \<bar>round_double (of_int (i * q) - p)\<bar>"
    have smaller: "nat (\<lceil>n\<rceil> - (i + 1)) < nat (\<lceil>n\<rceil> - i)"
      using True by (simp add: less_ceiling_iff)
    show ?thesis
    proof (cases "td < mn")
      case upd: True
      have u: "quantize_loop q n p i (mn, g) = quantize_loop q n p (i + 1) (td, Some (i * q))"
        "quantize_loop q n p i (mn, g') = quantize_loop q n p (i + 1) (td, Some (i * q))"
        using True upd by (subst quantize_loop.simps, simp add: Let_def td_def)+
      from less.hyps [OF smaller, of td "Some (i * q)" "Some (i * q)"]
      show ?thesis
      proof
        assume "\<exists>mn'. quantize_loop q n p (i + 1) (td, Some (i * q)) = (mn', Some (i * q)) \<and>
          quantize_loop q n p (i + 1) (td, Some (i * q)) = (mn', Some (i * q))"
        then obtain mn' where
          "quantize_loop q n p (i + 1) (td, Some (i * q)) = (mn', Some (i * q))" by blast
        with u have "i \<le> i \<and> quantize_loop q n p i (mn, g) = (mn', Some (i * q)) \<and>
            quantize_loop q n p i (mn, g') = (mn', Some (i * q))" by simp
        then show ?thesis by blast
      next
        assume "\<exists>mn' k. i + 1 \<le> k \<and>
          quantize_loop q n p (i + 1) (td, Some (i * q)) = (mn', Some (k * q)) \<and>
          quantize_loop q n p (i + 1) (td, Some (i * q)) = (mn', Some (k * q))"
        then obtain mn' k where "i + 1 \<le> k"
          "quantize_loop q n p (i + 1) (td, Some (i * q)) = (mn', Some (k * q))" by blast
        with u have "i \<le> k \<and> quantize_loop q n p i (mn, g) = (mn', Some (k * q)) \<and>
            quantize_loop q n p i (mn, g') = (mn', Some (k * q))" by simp
        then show ?thesis by blast
      qed
    next
      case keep: False
      have u: "quantize_loop q n p i (mn, g) = quantize_loop q n p (i + 1) (mn, g)"
        "quantize_loop q n p i (mn, g') = quantize_loop q n p (i + 1) (mn, g')"
        using True keep by (subst quantize_loop.simps, simp add: Let_def td_def)+
      from less.hyps [OF smaller, of mn g g']
      show ?thesis
      proof
        assume "\<exists>mn'. quantize_loop q n p (i + 1) (mn, g) = (mn', g) \<and>
          quantize_loop q n p (i + 1) (mn, g') = (mn', g')"
        with u show ?thesis by simp
      next
        assume "\<exists>mn' k. i + 1 \<le> k \<and>
          quantize_loop q n p (i + 1) (mn, g) = (mn', Some (k * q)) \<and>
          quantize_loop q n p (i + 1) (mn, g') = (mn', Some (k * q))"
        then obtain mn' k where "i + 1 \<le> k"
          "quantize_loop q n p (i + 1) (mn, g) = (mn', Some (k * q))"
          "quantize_loop q n p (i + 1) (mn, g') = (mn', Some (k * q))" by blast
        with u have "i \<le> k \<and> quantize_loop q n p i (mn, g) = (mn', Some (k * q)) \<and>
            quantize_loop q n p i (mn, g') = (mn', Some (k * q))" by simp
        then show ?thesis by blast
      qed
    qed
  qed
qed

text \<open>
  A tick that \<^verbatim>\<open>quantize_position\<close> returns when the global was never assigned is
  computed by the call itself: the call returns it whatever the global held, and it is
  a multiple \<open>k * step\<close> with \<open>k \<ge> 0\<close>.
\<close>

lemma quantize_position_computed:
  assumes "quantize_position c m None ql x = Some (Some t)"
  shows "quantize_position c m g ql x = Some (Some t) \<and>
         (\<exists>k \<ge> 0. t = k * note_length_to_ticks c ql)"
proof -
  define q where "q = note_length_to_ticks c ql"
  define n where "n = round_double (of_int (num_ticks m) / of_int q)"
  define p where "p = round_double (x * of_int (num_ticks m))"
  define mn where "mn = (if round_double (n * of_int q) < of_int (num_ticks m)
                         then \<bar>round_double (of_int (num_ticks m) - p)\<bar>
                         else of_int (num_ticks m))"
  have shape: "\<And>g. quantize_position c m g ql x =
      (if q = 0 then (if num_ticks m > 0 then None else Some g)
       else if overflows (x * of_int (num_ticks m)) then Some g
       else Some (snd (quantize_loop q n p 0 (mn, g))))"
    by (simp add: quantize_position_def Let_def q_def n_def p_def mn_def)
  from assms shape [of None] have q0: "q \<noteq> 0" and fin: "\<not> overflows (x * of_int (num_ticks m))"
    and loop: "snd (quantize_loop q n p 0 (mn, None)) = Some t"
    by (auto split: if_splits)
  from quantize_loop_global [of q n p 0 mn None g]
  have "snd (quantize_loop q n p 0 (mn, g)) = Some t \<and> (\<exists>k \<ge> 0. t = k * q)"
  proof
    assume "\<exists>mn'. quantize_loop q n p 0 (mn, None) = (mn', None) \<and>
          quantize_loop q n p 0 (mn, g) = (mn', g)"
    with loop have False by auto
    then show ?thesis ..
  next
    assume "\<exists>mn' k. 0 \<le> k \<and> quantize_loop q n p 0 (mn, None) = (mn', Some (k * q)) \<and>
            quantize_loop q n p 0 (mn, g) = (mn', Some (k * q))"
    then obtain mn' k where k: "0 \<le> k"
      "quantize_loop q n p 0 (mn, None) = (mn', Some (k * q))"
      "quantize_loop q n p 0 (mn, g) = (mn', Some (k * q))" by blast
    from k(2) loop have "t = k * q" by simp
    with k(1,3) show ?thesis by auto
  qed
  with shape [of g] q0 fin show ?thesis by (simp add: q_def)
qed

text \<open>
  Rounding matters: 0.1 is the double 3602879701896397 / 2^55, a little above one
  tenth. In a measure of 20 ticks its product with \<^verbatim>\<open>num_ticks\<close> rounds to 2, as far from
  tick 0 as from tick 4, and the earlier tick is returned.
\<close>

lemma quantize_position_rounds_product:
  "quantize_position (scenario (\<lambda>n. n :: int))
     \<lparr>num_beats = 5, beat_value = 4, mnotes = [Rest 1, Rest 4], num_ticks = 20\<rparr> None 4
     (3602879701896397 / 36028797018963968) = Some (Some 0) \<and>
   (2 :: rat) < 3602879701896397 / 36028797018963968 * 20"
  by (simp add: eval_defs)

text \<open>
  C3 at a failing input. In the 12-tick measure with the half note (8 ticks) as
  resolution the step does not divide the measure. At position 0.875 (10.5 ticks) the
  end-of-measure tick 12 is nearer than tick 8, and \<^verbatim>\<open>quantize_position\<close> returns 8:
  the branch that seeds the end of the measure is not taken, the quotient 12 / 8 = 1.5
  not being floored.
\<close>

theorem quantize_position_ignores_measure_end:
  "quantize_position (scenario (\<lambda>n. n :: int))
     \<lparr>num_beats = 3, beat_value = 4, mnotes = [Rest 2, Rest 4], num_ticks = 12\<rparr> None 2 (7 / 8) =
     Some (Some 8) \<and>
   \<bar>(12 :: rat) - 7 / 8 * 12\<bar> < \<bar>8 - 7 / 8 * 12\<bar> \<and>
   \<not> (note_length_to_ticks (scenario (\<lambda>n. n :: int)) 2 dvd 12) \<and>
   \<not> (round_double (round_double (12 / 8) * 8) < 12)"
  by (simp add: eval_defs)

subsection \<open>Arrays: reading and splicing at a known index\<close>

lemma js_index_at: "js_index (pre @ e # suf) (int (length pre)) = Some e"
  by (simp add: js_index_def)

lemma js_index_end: "js_index xs (int (length xs)) = None"
  by (simp add: js_index_def)

lemma js_splice_insert:
  "js_splice (pre @ suf) (int (length pre)) 0 items = pre @ items @ suf"
  by (simp add: js_splice_def Let_def)

lemma js_splice_delete:
  "js_splice (pre @ e # suf) (int (length pre)) 1 [] = pre @ suf"
  by (simp add: js_splice_def Let_def nat_add_distrib)

lemma foldr_js_splice:
  "foldr (\<lambda>rest ns. js_splice ns (int (length pre)) 0 [rest]) rests (pre @ suf) =
     pre @ rests @ suf"
proof (induction rests)
  case Nil
  then show ?case by simp
next
  case (Cons r rests)
  have "js_splice (pre @ (rests @ suf)) (int (length pre)) 0 [r] = pre @ [r] @ (rests @ suf)"
    by (rule js_splice_insert)
  with Cons show ?case by simp
qed

lemma splice_rests_at:
  "mnotes m = pre @ suf \<Longrightarrow>
   splice_rests m (int (length pre)) rests = m\<lparr>mnotes := pre @ rests @ suf\<rparr>"
  by (simp add: splice_rests_def foldr_js_splice)

lemma remove_rest_at:
  "mnotes m = pre @ e # suf \<Longrightarrow>
   remove_rest m (int (length pre)) = (Some e, m\<lparr>mnotes := pre @ suf\<rparr>)"
  by (simp add: remove_rest_def js_index_at js_splice_delete)

lemma insert_new_note_at:
  "mnotes m = pre @ suf \<Longrightarrow>
   insert_new_note c m (int (length pre)) ni =
     m\<lparr>mnotes := pre @ Note (note_length ni) {translate_midi_number_to_pitch c (pitch ni)} # suf\<rparr>"
  by (simp add: insert_new_note_def js_splice_insert)

subsection \<open>Sums of ticks\<close>

lemma sum_of_ticks_Nil [simp]: "sum_of_ticks c [] = 0"
  by (simp add: sum_of_ticks_def)

lemma sum_of_ticks_Cons [simp]: "sum_of_ticks c (e # es) = ticks_of c e + sum_of_ticks c es"
  by (simp add: sum_of_ticks_def)

lemma sum_of_ticks_append [simp]:
  "sum_of_ticks c (xs @ ys) = sum_of_ticks c xs + sum_of_ticks c ys"
  by (simp add: sum_of_ticks_def)

lemma sum_of_ticks_nonneg:
  "\<forall>e \<in> set es. 0 < ticks_of c e \<Longrightarrow> 0 \<le> sum_of_ticks c es"
  by (induction es) auto

lemma sum_of_ticks_take_less:
  "\<forall>e \<in> set es. 0 < ticks_of c e \<Longrightarrow> k < length es \<Longrightarrow>
   sum_of_ticks c (take k es) < sum_of_ticks c es"
proof -
  assume pos: "\<forall>e \<in> set es. 0 < ticks_of c e" and k: "k < length es"
  have es: "es = take k es @ es ! k # drop (Suc k) es"
    using k by (simp add: id_take_nth_drop)
  have "0 < ticks_of c (es ! k)" using pos k by simp
  moreover have "0 \<le> sum_of_ticks c (drop (Suc k) es)"
    by (rule sum_of_ticks_nonneg) (use pos in \<open>auto dest: in_set_dropD\<close>)
  moreover have "sum_of_ticks c es =
      sum_of_ticks c (take k es) + (ticks_of c (es ! k) + sum_of_ticks c (drop (Suc k) es))"
    by (subst es) (simp del: append_take_drop_id)
  ultimately show ?thesis by linarith
qed

lemma sum_of_ticks_dvd:
  "\<forall>e \<in> set es. s dvd ticks_of c e \<Longrightarrow> s dvd sum_of_ticks c es"
  by (induction es) auto

subsection \<open>The scan of place\_note\_in\_measure\<close>

lemma place_loop_skip:
  assumes t: "quantized_tick_position ni = Some t"
  shows "mnotes m = past @ pre @ rest \<Longrightarrow>
         \<forall>k < length pre. cur + sum_of_ticks c (take k pre) < t \<Longrightarrow>
         place_loop c m ni (int (length past)) cur =
         place_loop c m ni (int (length past + length pre)) (cur + sum_of_ticks c pre)"
proof (induction pre arbitrary: past cur)
  case Nil
  then show ?case by simp
next
  case (Cons e pre)
  from Cons.prems(2) have cur: "cur < t" by fastforce
  have idx: "js_index (mnotes m) (int (length past)) = Some e"
    using Cons.prems(1) by (simp add: js_index_at)
  have len: "int (length past) \<le> int (length (mnotes m))"
    using Cons.prems(1) by simp
  have step: "place_loop c m ni (int (length past)) cur =
              place_loop c m ni (int (length past) + 1) (cur + ticks_of c e)"
    using cur t idx len by (subst place_loop.simps) simp
  have "mnotes m = (past @ [e]) @ pre @ rest" using Cons.prems(1) by simp
  moreover have "\<forall>k < length pre. (cur + ticks_of c e) + sum_of_ticks c (take k pre) < t"
  proof (intro allI impI)
    fix k assume "k < length pre"
    then have "Suc k < length (e # pre)" by simp
    with Cons.prems(2) have "cur + sum_of_ticks c (take (Suc k) (e # pre)) < t" by blast
    then show "(cur + ticks_of c e) + sum_of_ticks c (take k pre) < t" by simp
  qed
  ultimately have "place_loop c m ni (int (length (past @ [e]))) (cur + ticks_of c e) =
     place_loop c m ni (int (length (past @ [e]) + length pre))
       ((cur + ticks_of c e) + sum_of_ticks c pre)"
    by (rule Cons.IH)
  with step show ?case by (simp add: ac_simps)
qed

lemma place_loop_reach:
  assumes "quantized_tick_position ni = Some t" and "mnotes m = pre @ rest"
    and "\<forall>e \<in> set pre. 0 < ticks_of c e" and "sum_of_ticks c pre \<le> t"
  shows "place_note_in_measure c m ni =
         place_loop c m ni (int (length pre)) (sum_of_ticks c pre)"
proof -
  have "\<forall>k < length pre. 0 + sum_of_ticks c (take k pre) < t"
    using sum_of_ticks_take_less [OF assms(3)] assms(4) by fastforce
  from place_loop_skip [OF assms(1), of m "[]" pre rest 0 c, OF _ this] assms(2)
  show ?thesis by (simp add: place_note_in_measure_def)
qed

lemma place_merge:
  assumes t: "quantized_tick_position ni = Some t"
    and ns: "mnotes m = pre @ Note l ps # suf"
    and pos: "\<forall>e \<in> set pre. 0 < ticks_of c e" and at: "sum_of_ticks c pre = t"
  shows "place_note_in_measure c m ni =
         Some (Inr (m\<lparr>mnotes := pre @ Note l (insert (translate_midi_number_to_pitch c (pitch ni)) ps) # suf\<rparr>))"
proof -
  have "place_note_in_measure c m ni = place_loop c m ni (int (length pre)) t"
    using place_loop_reach [OF t ns pos] at by simp
  also have "\<dots> = Some (Inr (m\<lparr>mnotes := (mnotes m)[nat (int (length pre)) :=
                      event_add_note c (Note l ps) ni]\<rparr>))"
    using t ns by (subst place_loop.simps) (simp add: js_index_at)
  finally show ?thesis using ns by simp
qed

lemma place_replace:
  assumes unit: "tick_unit c s"
    and t: "quantized_tick_position ni = Some t"
    and ns: "mnotes m = pre @ Rest l # suf"
    and pos: "\<forall>e \<in> set pre. 0 < ticks_of c e" and at: "sum_of_ticks c pre = t"
    and dvd: "s dvd t" "s dvd note_length_to_ticks c (note_length ni)" "s dvd note_length_to_ticks c l"
    and fit: "note_length_to_ticks c (note_length ni) \<le> note_length_to_ticks c l"
    and bound: "note_length_to_ticks c l - note_length_to_ticks c (note_length ni) \<le> num_ticks m"
  shows "\<exists>rests. place_note_in_measure c m ni =
           Some (Inr (m\<lparr>mnotes := pre @ Note (note_length ni)
                         {translate_midi_number_to_pitch c (pitch ni)} # rests @ suf\<rparr>)) \<and>
           (\<forall>e \<in> set rests. is_rest e \<and> supported c (ev_length e)) \<and>
           sum_of_ticks c rests =
             note_length_to_ticks c l - note_length_to_ticks c (note_length ni)"
proof -
  let ?nt = "note_length_to_ticks c (note_length ni)"
  let ?tl = "note_length_to_ticks c l"
  let ?m1 = "m\<lparr>mnotes := pre @ suf\<rparr>"
  have "s dvd t + ?nt" using dvd(1,2) by (rule dvd_add)
  moreover have "s dvd ?tl - ?nt" using dvd(3,2) by (rule dvd_diff)
  ultimately obtain rests where rests:
    "fill_loop c ?m1 (t + ?nt) (?tl - ?nt) [] = Some (Inr ([] @ rests))"
    "\<forall>e \<in> set rests. is_rest e \<and> supported c (ev_length e)"
    "sum_of_ticks c rests = ?tl - ?nt"
    using fill_loop_total [OF unit, of "t + ?nt" "?tl - ?nt" ?m1 "[]"] fit bound by auto
  have fill: "fill_space_with_rests c ?m1 (t + ?nt) (t + ?tl) = Some (Inr rests)"
    using rests(1) by (simp add: fill_space_with_rests_def)
  have "place_note_in_measure c m ni = place_loop c m ni (int (length pre)) t"
    using place_loop_reach [OF t ns pos] at by simp
  also have "\<dots> = remove_rest_and_insert_note c m t (int (length pre)) ni"
    using t ns by (subst place_loop.simps) (simp add: js_index_at)
  also have "\<dots> = Some (Inr (m\<lparr>mnotes := pre @ Note (note_length ni)
                         {translate_midi_number_to_pitch c (pitch ni)} # rests @ suf\<rparr>))"
    using t fill
    by (simp add: remove_rest_and_insert_note_def remove_rest_at [OF ns] ticks_of_def
        insert_rests_after_note_def splice_rests_at [of ?m1 pre suf]
        insert_new_note_at [of "m\<lparr>mnotes := pre @ rests @ suf\<rparr>" pre "rests @ suf"])
  finally show ?thesis using rests(2,3) by blast
qed

lemma place_split:
  assumes unit: "tick_unit c s"
    and t: "quantized_tick_position ni = Some t"
    and ns: "mnotes m = pre @ e # suf"
    and pos: "\<forall>e \<in> set pre. 0 < ticks_of c e"
    and inside: "sum_of_ticks c pre < t" "t < sum_of_ticks c pre + ticks_of c e"
    and dvd: "s dvd t" "s dvd note_length_to_ticks c (note_length ni)"
      "s dvd sum_of_ticks c pre" "s dvd ticks_of c e"
    and fit: "t + note_length_to_ticks c (note_length ni) \<le> sum_of_ticks c pre + ticks_of c e"
    and bound: "ticks_of c e \<le> num_ticks m" "0 \<le> note_length_to_ticks c (note_length ni)"
  shows "\<exists>before after. place_note_in_measure c m ni =
           Some (Inr (m\<lparr>mnotes := pre @ before @ Note (note_length ni)
                         {translate_midi_number_to_pitch c (pitch ni)} # after @ suf\<rparr>)) \<and>
           (\<forall>e \<in> set (before @ after). is_rest e \<and> supported c (ev_length e)) \<and>
           sum_of_ticks c before = t - sum_of_ticks c pre \<and>
           sum_of_ticks c after =
             sum_of_ticks c pre + ticks_of c e - (t + note_length_to_ticks c (note_length ni))"
proof -
  let ?nt = "note_length_to_ticks c (note_length ni)"
  let ?start = "sum_of_ticks c pre"
  let ?cur = "sum_of_ticks c pre + ticks_of c e"
  let ?note = "Note (note_length ni) {translate_midi_number_to_pitch c (pitch ni)}"
  let ?m1 = "m\<lparr>mnotes := pre @ suf\<rparr>"
  have "s dvd t + ?nt" using dvd(1,2) by (rule dvd_add)
  moreover have "s dvd ?cur - (t + ?nt)" using dvd by (simp add: dvd_add dvd_diff)
  ultimately obtain after where after:
    "fill_loop c ?m1 (t + ?nt) (?cur - (t + ?nt)) [] = Some (Inr ([] @ after))"
    "\<forall>e \<in> set after. is_rest e \<and> supported c (ev_length e)"
    "sum_of_ticks c after = ?cur - (t + ?nt)"
    using fill_loop_total [OF unit, of "t + ?nt" "?cur - (t + ?nt)" ?m1 "[]"] fit bound inside
    by auto
  let ?m3 = "m\<lparr>mnotes := pre @ ?note # after @ suf\<rparr>"
  have "s dvd t - ?start" using dvd(1,3) by (rule dvd_diff)
  then obtain before where before:
    "fill_loop c ?m3 ?start (t - ?start) [] = Some (Inr ([] @ before))"
    "\<forall>e \<in> set before. is_rest e \<and> supported c (ev_length e)"
    "sum_of_ticks c before = t - ?start"
    using fill_loop_total [OF unit dvd(3), of "t - ?start" ?m3 "[]"] inside bound by auto
  have fill_after: "fill_space_with_rests c ?m1 (t + ?nt) ?cur = Some (Inr after)"
    using after(1) by (simp add: fill_space_with_rests_def)
  have fill_before: "fill_space_with_rests c ?m3 (?cur - ticks_of c e) t = Some (Inr before)"
    using before(1) by (simp add: fill_space_with_rests_def)
  have "place_note_in_measure c m ni = place_loop c m ni (int (length pre)) ?start"
    using place_loop_reach [OF t ns pos] inside by simp
  also have "\<dots> = place_loop c m ni (int (length pre) + 1) ?cur"
    using t ns inside by (subst place_loop.simps) (simp add: js_index_at)
  also have "\<dots> = split_rest_and_insert_note c m ?cur (int (length pre)) ni"
    using t ns inside by (subst place_loop.simps) simp
  also have "\<dots> = Some (Inr (m\<lparr>mnotes := pre @ before @ ?note # after @ suf\<rparr>))"
    using t fill_after fill_before
    by (simp add: split_rest_and_insert_note_def remove_rest_at [OF ns]
        insert_rests_after_note_def splice_rests_at [of ?m1 pre suf]
        insert_new_note_at [of "m\<lparr>mnotes := pre @ after @ suf\<rparr>" pre "after @ suf"]
        insert_rests_before_note_def splice_rests_at [of ?m3 pre "?note # after @ suf"])
  finally show ?thesis using before(2,3) after(2,3) by auto
qed

subsection \<open>Measures that satisfy the duration invariant\<close>

lemma valid_measure_ticks:
  assumes "tick_unit c s" and "valid_measure c m" and "e \<in> set (mnotes m)"
  shows "0 < ticks_of c e" and "s dvd ticks_of c e"
  using assms tick_unit_supported [of c s "ev_length e"]
  by (auto simp: valid_measure_def ticks_of_def)

lemma valid_measure_event_le:
  assumes unit: "tick_unit c s" and valid: "valid_measure c m"
    and ns: "mnotes m = pre @ e # suf"
  shows "ticks_of c e \<le> num_ticks m"
proof -
  have pos: "\<forall>x \<in> set (mnotes m). 0 < ticks_of c x"
    using valid_measure_ticks(1) [OF unit valid] by blast
  have "0 \<le> sum_of_ticks c pre" "0 \<le> sum_of_ticks c suf"
    using pos ns by (auto intro!: sum_of_ticks_nonneg)
  moreover have "sum_of_ticks c (mnotes m) = num_ticks m"
    using valid by (simp add: valid_measure_def)
  ultimately show ?thesis using ns by simp
qed

lemma fits_from_decomp:
  "\<forall>e \<in> set es. 0 < ticks_of c e \<Longrightarrow> cur \<le> t \<Longrightarrow> fits_from c cur es t n \<Longrightarrow>
   \<exists>pre e suf. es = pre @ e # suf \<and> cur + sum_of_ticks c pre \<le> t \<and>
     t < cur + sum_of_ticks c pre + ticks_of c e \<and>
     ((t = cur + sum_of_ticks c pre \<and> is_note e) \<or>
      t + n \<le> cur + sum_of_ticks c pre + ticks_of c e)"
proof (induction es arbitrary: cur)
  case Nil
  then show ?case by simp
next
  case (Cons x xs)
  have x_pos: "0 < ticks_of c x" using Cons.prems(1) by simp
  show ?case
  proof (cases "(t = cur \<and> is_note x) \<or> t < cur + ticks_of c x")
    case True
    have "x # xs = [] @ x # xs \<and> cur + sum_of_ticks c [] \<le> t \<and>
          t < cur + sum_of_ticks c [] + ticks_of c x \<and>
          ((t = cur + sum_of_ticks c [] \<and> is_note x) \<or>
           t + n \<le> cur + sum_of_ticks c [] + ticks_of c x)"
      using True Cons.prems(2,3) x_pos by (auto split: if_splits)
    then show ?thesis by blast
  next
    case False
    then have next_le: "cur + ticks_of c x \<le> t" by simp
    from False Cons.prems(3) have "fits_from c (cur + ticks_of c x) xs t n"
      by (auto split: if_splits)
    from Cons.IH [OF _ next_le this] Cons.prems(1)
    obtain pre e suf where d: "xs = pre @ e # suf"
      "cur + ticks_of c x + sum_of_ticks c pre \<le> t"
      "t < cur + ticks_of c x + sum_of_ticks c pre + ticks_of c e"
      "(t = cur + ticks_of c x + sum_of_ticks c pre \<and> is_note e) \<or>
       t + n \<le> cur + ticks_of c x + sum_of_ticks c pre + ticks_of c e"
      by auto
    have "x # xs = (x # pre) @ e # suf \<and> cur + sum_of_ticks c (x # pre) \<le> t \<and>
          t < cur + sum_of_ticks c (x # pre) + ticks_of c e \<and>
          ((t = cur + sum_of_ticks c (x # pre) \<and> is_note e) \<or>
           t + n \<le> cur + sum_of_ticks c (x # pre) + ticks_of c e)"
      using d by (simp add: add.assoc)
    then show ?thesis by blast
  qed
qed

lemma note_at_append:
  "is_note e \<Longrightarrow> note_at c cur (pre @ e # suf) (cur + sum_of_ticks c pre)"
proof (induction pre arbitrary: cur)
  case Nil
  then show ?case by simp
next
  case (Cons a pre)
  from Cons.IH [OF Cons.prems, of "cur + ticks_of c a"]
  show ?case by (simp add: add.assoc)
qed

lemma place_note_valid:
  assumes unit: "tick_unit c s" and valid: "valid_measure c m"
    and t: "quantized_tick_position ni = Some t" and t0: "0 \<le> t" and st: "s dvd t"
    and nl: "supported c (note_length ni)"
    and fits: "fits_from c 0 (mnotes m) t (note_length_to_ticks c (note_length ni))"
  shows "\<exists>m'. place_note_in_measure c m ni = Some (Inr m') \<and> valid_measure c m' \<and>
              num_ticks m' = num_ticks m \<and>
              (note_at c 0 (mnotes m) t \<or>
               (\<exists>A B. mnotes m' = A @ Note (note_length ni)
                           {translate_midi_number_to_pitch c (pitch ni)} # B \<and>
                      sum_of_ticks c A = t))"
proof -
  let ?nt = "note_length_to_ticks c (note_length ni)"
  let ?note = "Note (note_length ni) {translate_midi_number_to_pitch c (pitch ni)}"
  have pos: "\<forall>x \<in> set (mnotes m). 0 < ticks_of c x"
    and dv: "\<forall>x \<in> set (mnotes m). s dvd ticks_of c x"
    using valid_measure_ticks [OF unit valid] by blast+
  have sup: "\<forall>x \<in> set (mnotes m). supported c (ev_length x)"
    and total: "sum_of_ticks c (mnotes m) = num_ticks m"
    using valid by (simp_all add: valid_measure_def)
  have nt: "0 < ?nt" "s dvd ?nt" using tick_unit_supported [OF unit nl] by simp_all
  from fits_from_decomp [OF pos t0 fits]
  obtain pre e suf where d: "mnotes m = pre @ e # suf" "sum_of_ticks c pre \<le> t"
    "t < sum_of_ticks c pre + ticks_of c e"
    "(t = sum_of_ticks c pre \<and> is_note e) \<or> t + ?nt \<le> sum_of_ticks c pre + ticks_of c e"
    by auto
  have pre_pos: "\<forall>x \<in> set pre. 0 < ticks_of c x" using pos d(1) by simp
  have pre_dvd: "s dvd sum_of_ticks c pre"
    by (rule sum_of_ticks_dvd) (use dv d(1) in simp)
  have e_dvd: "s dvd ticks_of c e" using dv d(1) by simp
  have e_le: "ticks_of c e \<le> num_ticks m" by (rule valid_measure_event_le [OF unit valid d(1)])
  show ?thesis
  proof (cases "t = sum_of_ticks c pre")
    case at: True
    show ?thesis
    proof (cases e)
      case (Note l ps)
      let ?m' = "m\<lparr>mnotes := pre @ Note l (insert (translate_midi_number_to_pitch c (pitch ni)) ps) # suf\<rparr>"
      have "place_note_in_measure c m ni = Some (Inr ?m')"
        using place_merge [OF t _ pre_pos, of m l ps suf] d(1) at Note by simp
      moreover have "valid_measure c ?m'"
        using sup total d(1) Note by (simp add: valid_measure_def ticks_of_def)
      moreover have "note_at c 0 (mnotes m) t"
        using note_at_append [of e c 0 pre suf] d(1) at Note by simp
      moreover have "num_ticks ?m' = num_ticks m" by simp
      ultimately show ?thesis by blast
    next
      case (Rest l)
      from d(4) at Rest have fit: "?nt \<le> note_length_to_ticks c l"
        by (simp add: ticks_of_def)
      from place_replace [OF unit t _ pre_pos, of m l suf] d(1) at Rest st nt(2) e_dvd fit e_le nt(1)
      obtain rests where rests: "place_note_in_measure c m ni =
           Some (Inr (m\<lparr>mnotes := pre @ ?note # rests @ suf\<rparr>))"
        "\<forall>x \<in> set rests. is_rest x \<and> supported c (ev_length x)"
        "sum_of_ticks c rests = note_length_to_ticks c l - ?nt"
        by (auto simp: ticks_of_def)
      let ?m' = "m\<lparr>mnotes := pre @ ?note # rests @ suf\<rparr>"
      have "valid_measure c ?m'"
        using sup total d(1) Rest rests(2,3) nl
        by (auto simp: valid_measure_def ticks_of_def)
      moreover have "\<exists>A B. mnotes ?m' = A @ ?note # B \<and> sum_of_ticks c A = t"
        using at by (intro exI [of _ pre] exI [of _ "rests @ suf"]) simp
      moreover have "num_ticks ?m' = num_ticks m" by simp
      ultimately show ?thesis using rests(1) by blast
    qed
  next
    case False
    with d(2) have inside: "sum_of_ticks c pre < t" by simp
    from False d(4) have fit: "t + ?nt \<le> sum_of_ticks c pre + ticks_of c e" by simp
    from place_split [OF unit t d(1) pre_pos inside d(3) st nt(2) pre_dvd e_dvd fit e_le] nt(1)
    obtain before after where ba: "place_note_in_measure c m ni =
           Some (Inr (m\<lparr>mnotes := pre @ before @ ?note # after @ suf\<rparr>))"
        "\<forall>x \<in> set (before @ after). is_rest x \<and> supported c (ev_length x)"
        "sum_of_ticks c before = t - sum_of_ticks c pre"
        "sum_of_ticks c after = sum_of_ticks c pre + ticks_of c e - (t + ?nt)"
      by auto
    let ?m' = "m\<lparr>mnotes := pre @ before @ ?note # after @ suf\<rparr>"
    have "valid_measure c ?m'"
      using sup total d(1) ba(2,3,4) nl
      by (auto simp: valid_measure_def ticks_of_def)
    moreover have "\<exists>A B. mnotes ?m' = A @ ?note # B \<and> sum_of_ticks c A = t"
      using ba(3) by (intro exI [of _ "pre @ before"] exI [of _ "after @ suf"]) simp
    moreover have "num_ticks ?m' = num_ticks m" by simp
    ultimately show ?thesis using ba(1) by blast
  qed
qed

subsection \<open>The scan of remove\_note\_from\_measure\<close>

lemma event_remove_note_length:
  "ev_length (fst (event_remove_note c e ni)) = ev_length e"
  by (cases e) simp_all

lemma make_rest_length: "ev_length (make_rest e) = ev_length e"
  by (cases e) simp_all

lemma remove_loop_lengths:
  "map ev_length (mnotes (measure_after (remove_loop c m ni i cur))) = map ev_length (mnotes m) \<and>
   num_ticks (measure_after (remove_loop c m ni i cur)) = num_ticks m"
proof (induction c m ni i cur rule: remove_loop.induct)
  case (1 c m ni i cur)
  show ?case
  proof (cases "i \<le> int (length (mnotes m))")
    case False
    then show ?thesis by (subst (1 2) remove_loop.simps) simp
  next
    case le: True
    show ?thesis
    proof (cases "js_index (mnotes m) i")
      case None
      then show ?thesis using le by (subst (1 2) remove_loop.simps) simp
    next
      case (Some e)
      then have e: "0 \<le> i" "nat i < length (mnotes m)" "e = mnotes m ! nat i"
        by (auto simp: js_index_def split: if_splits)
      show ?thesis
      proof (cases "Some cur = quantized_tick_position ni \<and> is_note e")
        case True
        obtain e' em where r: "event_remove_note c e ni = (e', em)" by (cases "event_remove_note c e ni")
        have len: "ev_length (if em then make_rest e' else e') = ev_length (mnotes m ! nat i)"
          using event_remove_note_length [of c e ni] r e(3) by (simp add: make_rest_length)
        have "remove_loop c m ni i cur =
                Inr (m\<lparr>mnotes := (mnotes m)[nat i := (if em then make_rest e' else e')]\<rparr>)"
          using le Some True r by (subst remove_loop.simps) simp
        moreover have "map ev_length ((mnotes m)[nat i := (if em then make_rest e' else e')]) =
                       map ev_length (mnotes m)"
          unfolding map_update len by (simp add: map_update [symmetric])
        ultimately show ?thesis by simp
      next
        case False
        have "remove_loop c m ni i cur = remove_loop c m ni (i + 1) (cur + ticks_of c e)"
          using le Some False by (subst remove_loop.simps) auto
        with "1.IH" [OF le Some False] show ?thesis by simp
      qed
    qed
  qed
qed

lemma sum_of_ticks_lengths:
  "map ev_length es = map ev_length es' \<Longrightarrow> sum_of_ticks c es = sum_of_ticks c es'"
proof -
  assume eq: "map ev_length es = map ev_length es'"
  have "\<And>xs. map (ticks_of c) xs = map (note_length_to_ticks c) (map ev_length xs)"
    by (simp add: ticks_of_def)
  with eq show ?thesis by (simp add: sum_of_ticks_def del: map_map)
qed

lemma valid_measure_lengths:
  assumes "map ev_length (mnotes m') = map ev_length (mnotes m)" and "num_ticks m' = num_ticks m"
    and "valid_measure c m"
  shows "valid_measure c m'"
proof -
  have "ev_length ` set (mnotes m') = ev_length ` set (mnotes m)"
    using assms(1) by (metis set_map)
  moreover have "\<forall>l \<in> ev_length ` set (mnotes m). supported c l"
    using assms(3) by (auto simp: valid_measure_def)
  ultimately have "\<forall>e \<in> set (mnotes m'). supported c (ev_length e)"
    by (metis imageI)
  with sum_of_ticks_lengths [OF assms(1), of c] assms(2,3) show ?thesis
    by (simp add: valid_measure_def)
qed

lemma remove_note_valid:
  "valid_measure c m \<Longrightarrow> valid_measure c (measure_after (remove_note c m ni))"
  using remove_loop_lengths [of c m ni 0 0]
  by (auto simp: remove_note_def remove_note_from_measure_def intro: valid_measure_lengths)

lemma remove_loop_skip:
  "mnotes m = past @ pre @ rest \<Longrightarrow>
   \<forall>k < length pre. \<not> (Some (cur + sum_of_ticks c (take k pre)) = quantized_tick_position ni \<and>
                        is_note (pre ! k)) \<Longrightarrow>
   remove_loop c m ni (int (length past)) cur =
   remove_loop c m ni (int (length past + length pre)) (cur + sum_of_ticks c pre)"
proof (induction pre arbitrary: past cur)
  case Nil
  then show ?case by simp
next
  case (Cons e pre)
  from Cons.prems(2) have here: "\<not> (Some cur = quantized_tick_position ni \<and> is_note e)"
    by fastforce
  have idx: "js_index (mnotes m) (int (length past)) = Some e"
    using Cons.prems(1) by (simp add: js_index_at)
  have len: "int (length past) \<le> int (length (mnotes m))"
    using Cons.prems(1) by simp
  have step: "remove_loop c m ni (int (length past)) cur =
              remove_loop c m ni (int (length past) + 1) (cur + ticks_of c e)"
    using here idx len by (subst remove_loop.simps) auto
  have "mnotes m = (past @ [e]) @ pre @ rest" using Cons.prems(1) by simp
  moreover have "\<forall>k < length pre.
      \<not> (Some ((cur + ticks_of c e) + sum_of_ticks c (take k pre)) = quantized_tick_position ni \<and>
         is_note (pre ! k))"
  proof (intro allI impI)
    fix k assume "k < length pre"
    then have "Suc k < length (e # pre)" by simp
    with Cons.prems(2) have "\<not> (Some (cur + sum_of_ticks c (take (Suc k) (e # pre))) =
        quantized_tick_position ni \<and> is_note ((e # pre) ! Suc k))" by blast
    then show "\<not> (Some ((cur + ticks_of c e) + sum_of_ticks c (take k pre)) =
        quantized_tick_position ni \<and> is_note (pre ! k))" by (simp add: add.assoc)
  qed
  ultimately have "remove_loop c m ni (int (length (past @ [e]))) (cur + ticks_of c e) =
     remove_loop c m ni (int (length (past @ [e]) + length pre))
       ((cur + ticks_of c e) + sum_of_ticks c pre)"
    by (rule Cons.IH)
  with step show ?case by (simp add: ac_simps)
qed

lemma remove_note_at:
  assumes t: "quantized_tick_position ni = Some t"
    and ns: "mnotes m = pre @ Note l ps # suf"
    and pos: "\<forall>e \<in> set pre. 0 < ticks_of c e" and at: "sum_of_ticks c pre = t"
  shows "remove_note c m ni =
         Inr (m\<lparr>mnotes := pre @
                (if ps - {translate_midi_number_to_pitch c (pitch ni)} = {} then Rest l
                 else Note l (ps - {translate_midi_number_to_pitch c (pitch ni)})) # suf\<rparr>)"
proof -
  have "\<forall>k < length pre. \<not> (Some (0 + sum_of_ticks c (take k pre)) = quantized_tick_position ni \<and>
                        is_note (pre ! k))"
    using sum_of_ticks_take_less [OF pos] at t by fastforce
  from remove_loop_skip [of m "[]" pre "Note l ps # suf" 0 c ni, OF _ this] ns
  have "remove_note c m ni = remove_loop c m ni (int (length pre)) (sum_of_ticks c pre)"
    by (simp add: remove_note_def remove_note_from_measure_def)
  also have "\<dots> = Inr (m\<lparr>mnotes := (mnotes m)[nat (int (length pre)) :=
       (if ps - {translate_midi_number_to_pitch c (pitch ni)} = {}
        then make_rest (Note l (ps - {translate_midi_number_to_pitch c (pitch ni)}))
        else Note l (ps - {translate_midi_number_to_pitch c (pitch ni)}))]\<rparr>)"
    using t ns at by (subst remove_loop.simps) (simp add: js_index_at)
  finally show ?thesis using ns by simp
qed

subsection \<open>A note placed on the start of a rest\<close>

text \<open>
  C7 as stated fails: in a measure of 2 beats of quarter-note value (8 ticks, one half
  rest), a whole note added at position 0 replaces the rest; the leftover interval
  \<open>[16, 8)\<close> is empty, no rest is inserted and the events sum to 16 ticks, not to 8.
\<close>

theorem add_note_replaces_rest_overflow:
  "Measure (scenario (\<lambda>n. n :: int)) \<lparr>num_beats = 2, beat_value = 4\<rparr> =
     Some (Inr \<lparr>num_beats = 2, beat_value = 4, mnotes = [Rest 2], num_ticks = 8\<rparr>) \<and>
   add_note (scenario (\<lambda>n. n :: int)) None
       \<lparr>num_beats = 2, beat_value = 4, mnotes = [Rest 2], num_ticks = 8\<rparr>
       \<lparr>pitch = 60, note_length = 1, quantization = 4, x_position = 0,
        quantized_tick_position = None\<rparr> =
     Some (Some 0,
           \<lparr>pitch = 60, note_length = 1, quantization = 4, x_position = 0,
            quantized_tick_position = Some 0\<rparr>,
           Inr \<lparr>num_beats = 2, beat_value = 4, mnotes = [Note 1 {60}], num_ticks = 8\<rparr>) \<and>
   sum_of_ticks (scenario (\<lambda>n. n :: int)) [Note 1 {60}] = 16"
  by (simp add: eval_defs)

text \<open>
  C7, amended. When the quantized target tick of an \<^verbatim>\<open>add_note\<close> request is the start
  of a Rest, in a measure that satisfies the duration invariant, and the note has a
  supported length of at most the tick length of that Rest, the Rest is removed, a
  Note of the requested length with the requested pitch stands at its index, the
  rests that follow it fill the leftover interval exactly, and the events still sum to
  \<^verbatim>\<open>num_ticks\<close>.
\<close>

theorem add_note_replaces_rest:
  assumes unit: "tick_unit c s" and valid: "valid_measure c m"
    and q: "quantize_position c m g (quantization ni) (x_position ni) = Some (Some t)"
    and ns: "mnotes m = pre @ Rest l # suf" and at: "sum_of_ticks c pre = t"
    and nl: "supported c (note_length ni)"
    and fit: "note_length_to_ticks c (note_length ni) \<le> note_length_to_ticks c l"
  shows "\<exists>rests. add_note c g m ni =
           Some (Some t, ni\<lparr>quantized_tick_position := Some t\<rparr>,
                 Inr (m\<lparr>mnotes := pre @ Note (note_length ni)
                          {translate_midi_number_to_pitch c (pitch ni)} # rests @ suf\<rparr>)) \<and>
           (\<forall>e \<in> set rests. is_rest e) \<and>
           sum_of_ticks c rests =
             note_length_to_ticks c l - note_length_to_ticks c (note_length ni) \<and>
           sum_of_ticks c (pre @ Note (note_length ni)
                          {translate_midi_number_to_pitch c (pitch ni)} # rests @ suf) = num_ticks m"
proof -
  let ?ni = "ni\<lparr>quantized_tick_position := Some t\<rparr>"
  let ?nt = "note_length_to_ticks c (note_length ni)"
  have pos: "\<forall>x \<in> set pre. 0 < ticks_of c x" and dv: "\<forall>x \<in> set pre. s dvd ticks_of c x"
    using valid_measure_ticks [OF unit valid] ns by auto
  have st: "s dvd t" using sum_of_ticks_dvd [OF dv] at by simp
  have l: "s dvd note_length_to_ticks c l"
    using valid_measure_ticks(2) [OF unit valid, of "Rest l"] ns by (simp add: ticks_of_def)
  have le: "note_length_to_ticks c l \<le> num_ticks m"
    using valid_measure_event_le [OF unit valid ns] by (simp add: ticks_of_def)
  have nt: "0 < ?nt" "s dvd ?nt" using tick_unit_supported [OF unit nl] by simp_all
  have total: "sum_of_ticks c (mnotes m) = num_ticks m"
    using valid by (simp add: valid_measure_def)
  from place_replace [OF unit, of ?ni t m pre l suf] ns pos at st nt l fit le
  obtain rests where rests: "place_note_in_measure c m ?ni =
           Some (Inr (m\<lparr>mnotes := pre @ Note (note_length ni)
                         {translate_midi_number_to_pitch c (pitch ni)} # rests @ suf\<rparr>))"
    "\<forall>e \<in> set rests. is_rest e \<and> supported c (ev_length e)"
    "sum_of_ticks c rests = note_length_to_ticks c l - ?nt"
    by auto
  have "add_note c g m ni =
           Some (Some t, ?ni,
                 Inr (m\<lparr>mnotes := pre @ Note (note_length ni)
                          {translate_midi_number_to_pitch c (pitch ni)} # rests @ suf\<rparr>))"
    using q rests(1) by (simp add: add_note_def)
  moreover have "sum_of_ticks c (pre @ Note (note_length ni)
                          {translate_midi_number_to_pitch c (pitch ni)} # rests @ suf) = num_ticks m"
    using total ns rests(3) by (simp add: ticks_of_def)
  ultimately show ?thesis using rests(2,3) by blast
qed

theorem add_note_replaces_rest_witness:
  "\<exists>rests. add_note (scenario (\<lambda>n. n :: int)) None
       \<lparr>num_beats = 4, beat_value = 4, mnotes = [Rest 2, Note 4 {60}, Rest 4], num_ticks = 16\<rparr>
       \<lparr>pitch = 62, note_length = 8, quantization = 4, x_position = 3 / 4,
        quantized_tick_position = None\<rparr> =
     Some (Some 12,
           \<lparr>pitch = 62, note_length = 8, quantization = 4, x_position = 3 / 4,
            quantized_tick_position = Some 12\<rparr>,
           Inr \<lparr>num_beats = 4, beat_value = 4,
                mnotes = [Rest 2, Note 4 {60}, Note 8 {62}] @ rests, num_ticks = 16\<rparr>) \<and>
     sum_of_ticks (scenario (\<lambda>n. n :: int)) rests = 2"
proof -
  let ?c = "scenario (\<lambda>n. n :: int)"
  let ?m = "\<lparr>num_beats = 4, beat_value = 4, mnotes = [Rest 2, Note 4 {60 :: int}, Rest 4],
             num_ticks = 16\<rparr>"
  let ?ni = "\<lparr>pitch = 62, note_length = 8, quantization = 4, x_position = 3 / 4,
              quantized_tick_position = None\<rparr>"
  have unit: "tick_unit ?c 1" by (simp add: tick_unit_def scenario_def)
  have valid: "valid_measure ?c ?m"
    by (simp add: valid_measure_def supported_def sum_of_ticks_def ticks_of_def scenario_def)
  have q: "quantize_position ?c ?m None (quantization ?ni) (x_position ?ni) = Some (Some 12)"
    by (simp add: eval_defs)
  have ns: "mnotes ?m = [Rest 2, Note 4 {60}] @ Rest 4 # []" by simp
  have at: "sum_of_ticks ?c [Rest 2, Note 4 {60}] = 12"
    by (simp add: ticks_of_def scenario_def)
  have nl: "supported ?c (note_length ?ni)" by (simp add: supported_def scenario_def)
  have fit: "note_length_to_ticks ?c (note_length ?ni) \<le> note_length_to_ticks ?c 4"
    by (simp add: scenario_def)
  from add_note_replaces_rest [OF unit valid q ns at nl fit]
  show ?thesis
  proof (elim exE conjE)
    fix rests
    assume a: "add_note ?c None ?m ?ni =
           Some (Some 12, ?ni\<lparr>quantized_tick_position := Some 12\<rparr>,
                 Inr (?m\<lparr>mnotes := [Rest 2, Note 4 {60}] @ Note (note_length ?ni)
                          {translate_midi_number_to_pitch ?c (pitch ?ni)} # rests @ []\<rparr>))"
      and b: "sum_of_ticks ?c rests =
                note_length_to_ticks ?c 4 - note_length_to_ticks ?c (note_length ?ni)"
    have tr: "translate_midi_number_to_pitch ?c 62 = 62" "note_length_to_ticks ?c 4 = 4"
      "note_length_to_ticks ?c 8 = 2"
      by (simp_all add: scenario_def)
    show ?thesis
      by (rule exI [of _ rests]) (use a b tr in simp)
  qed
qed

subsection \<open>A scan that finds no case\<close>

lemma place_loop_exhausted:
  assumes t: "quantized_tick_position ni = Some t"
    and before: "\<forall>i < length (mnotes m). sum_of_ticks c (take i (mnotes m)) < t"
    and total: "sum_of_ticks c (mnotes m) \<le> t"
  shows "place_note_in_measure c m ni = Some (Inl (TypeError, m))"
proof -
  have "\<forall>k < length (mnotes m). 0 + sum_of_ticks c (take k (mnotes m)) < t"
    using before by simp
  from place_loop_skip [OF t, of m "[]" "mnotes m" "[]" 0 c, OF _ this]
  have "place_note_in_measure c m ni =
        place_loop c m ni (int (length (mnotes m))) (sum_of_ticks c (mnotes m))"
    by (simp add: place_note_in_measure_def)
  also have "\<dots> = Some (Inl (TypeError, m))"
    using t total by (subst place_loop.simps) (simp add: js_index_end)
  finally show ?thesis .
qed

lemma remove_loop_exhausted:
  assumes "\<forall>i < length (mnotes m).
             \<not> (Some (sum_of_ticks c (take i (mnotes m))) = quantized_tick_position ni \<and>
                is_note (mnotes m ! i))"
  shows "remove_note c m ni = Inl (TypeError, m)"
proof -
  have "\<forall>k < length (mnotes m).
          \<not> (Some (0 + sum_of_ticks c (take k (mnotes m))) = quantized_tick_position ni \<and>
             is_note (mnotes m ! k))"
    using assms by simp
  from remove_loop_skip [of m "[]" "mnotes m" "[]" 0 c ni, OF _ this]
  have "remove_note c m ni =
        remove_loop c m ni (int (length (mnotes m))) (sum_of_ticks c (mnotes m))"
    by (simp add: remove_note_def remove_note_from_measure_def)
  also have "\<dots> = Inl (TypeError, m)"
    by (subst remove_loop.simps) (simp add: js_index_end)
  finally show ?thesis .
qed


subsection \<open>What remove\_note reads of its request\<close>

lemma event_remove_note_pitch:
  "pitch ni = pitch rq \<Longrightarrow> event_remove_note c e ni = event_remove_note c e rq"
  by (cases e) simp_all

lemma remove_loop_fields:
  assumes qt: "quantized_tick_position ni = quantized_tick_position rq"
    and p: "pitch ni = pitch rq"
  shows "remove_loop c m ni i cur = remove_loop c m rq i cur"
proof (induction "nat (int (length (mnotes m)) + 1 - i)" arbitrary: i cur rule: less_induct)
  case less
  show ?case
  proof (cases "i \<le> int (length (mnotes m))")
    case False
    then show ?thesis by (subst (1 2) remove_loop.simps) simp
  next
    case le: True
    show ?thesis
    proof (cases "js_index (mnotes m) i")
      case None
      then show ?thesis using le by (subst (1 2) remove_loop.simps) simp
    next
      case (Some e)
      have "nat (int (length (mnotes m)) + 1 - (i + 1)) < nat (int (length (mnotes m)) + 1 - i)"
        using le by simp
      from less.hyps [OF this]
      have IH: "remove_loop c m ni (i + 1) (cur + ticks_of c e) =
                remove_loop c m rq (i + 1) (cur + ticks_of c e)" .
      show ?thesis
        using le Some IH qt event_remove_note_pitch [OF p, of c e]
        by (subst (1 2) remove_loop.simps) simp
    qed
  qed
qed

text \<open>
  C10. \<^verbatim>\<open>remove_note\<close> does not call \<^verbatim>\<open>quantize_position\<close>: it reads the field
  \<^verbatim>\<open>quantized_tick_position\<close> of the request. Two requests with the same
  \<^verbatim>\<open>quantized_tick_position\<close> and the same pitch give the same outcome on every measure,
  whatever their \<^verbatim>\<open>quantization\<close>, \<^verbatim>\<open>x_position\<close> and \<^verbatim>\<open>note_length\<close> are.
\<close>

theorem remove_note_reads_tick_and_pitch:
  assumes "quantized_tick_position ni = quantized_tick_position rq" and "pitch ni = pitch rq"
  shows "remove_note c m ni = remove_note c m rq"
  using remove_loop_fields [OF assms]
  by (simp add: remove_note_def remove_note_from_measure_def)

theorem remove_note_reads_tick_and_pitch_witness:
  "remove_note (scenario (\<lambda>n. n :: int))
       \<lparr>num_beats = 4, beat_value = 4, mnotes = [Rest 2, Note 4 {60}, Rest 4], num_ticks = 16\<rparr>
       \<lparr>pitch = 60, note_length = 4, quantization = 4, x_position = 1 / 2,
        quantized_tick_position = Some 8\<rparr> =
   remove_note (scenario (\<lambda>n. n :: int))
       \<lparr>num_beats = 4, beat_value = 4, mnotes = [Rest 2, Note 4 {60}, Rest 4], num_ticks = 16\<rparr>
       \<lparr>pitch = 60, note_length = 1, quantization = 16, x_position = 0,
        quantized_tick_position = Some 8\<rparr>"
  by (rule remove_note_reads_tick_and_pitch) simp_all

subsection \<open>Adding a note and removing it again\<close>

lemma valid_request_quantized:
  assumes unit: "tick_unit c s" and rq: "valid_request c ni"
    and q: "quantize_position c m None (quantization ni) (x_position ni) = Some (Some t)"
  shows "quantize_position c m g (quantization ni) (x_position ni) = Some (Some t) \<and>
         0 \<le> t \<and> s dvd t"
proof -
  have qt: "0 < note_length_to_ticks c (quantization ni)"
    "s dvd note_length_to_ticks c (quantization ni)"
    using tick_unit_supported [OF unit, of "quantization ni"] rq
    by (simp_all add: valid_request_def)
  from quantize_position_computed [OF q, of g]
  obtain k where k: "quantize_position c m g (quantization ni) (x_position ni) = Some (Some t)"
    "0 \<le> k" "t = k * note_length_to_ticks c (quantization ni)" by blast
  with qt show ?thesis by simp
qed

lemma fits_num_ticks_pos:
  assumes unit: "tick_unit c s" and valid: "valid_measure c m"
    and fits: "fits_from c 0 (mnotes m) t n"
  shows "0 < num_ticks m"
proof (cases "mnotes m")
  case Nil
  with fits show ?thesis by simp
next
  case (Cons e es)
  then have "mnotes m = [] @ e # es" by simp
  from valid_measure_event_le [OF unit valid this]
  have "ticks_of c e \<le> num_ticks m" .
  moreover have "0 < ticks_of c e"
    using valid_measure_ticks(1) [OF unit valid, of e] Cons by simp
  ultimately show ?thesis by simp
qed

text \<open>
  C9 as stated fails, in two ways. A pitch added to a Note that already sounds
  another pitch and then removed leaves a Note, not a Rest, at that index. And a half
  note added at tick 12 of the fresh 16-tick measure and then removed leaves events
  that sum to 20 ticks.
\<close>

theorem add_then_remove_chord_and_overflow:
  "add_note (scenario (\<lambda>n. n :: int)) None
     \<lparr>num_beats = 4, beat_value = 4, mnotes = [Rest 2, Note 4 {60}, Rest 4], num_ticks = 16\<rparr>
     \<lparr>pitch = 62, note_length = 4, quantization = 4, x_position = 1 / 2,
      quantized_tick_position = None\<rparr> =
     Some (Some 8,
           \<lparr>pitch = 62, note_length = 4, quantization = 4, x_position = 1 / 2,
            quantized_tick_position = Some 8\<rparr>,
           Inr \<lparr>num_beats = 4, beat_value = 4, mnotes = [Rest 2, Note 4 {62, 60}, Rest 4],
                num_ticks = 16\<rparr>) \<and>
   remove_note (scenario (\<lambda>n. n :: int))
     \<lparr>num_beats = 4, beat_value = 4, mnotes = [Rest 2, Note 4 {62, 60}, Rest 4], num_ticks = 16\<rparr>
     \<lparr>pitch = 62, note_length = 4, quantization = 4, x_position = 1 / 2,
      quantized_tick_position = Some 8\<rparr> =
     Inr \<lparr>num_beats = 4, beat_value = 4, mnotes = [Rest 2, Note 4 {60}, Rest 4],
          num_ticks = 16\<rparr> \<and>
   add_note (scenario (\<lambda>n. n :: int)) None
     \<lparr>num_beats = 4, beat_value = 4, mnotes = [Rest 1], num_ticks = 16\<rparr>
     \<lparr>pitch = 60, note_length = 2, quantization = 4, x_position = 3 / 4,
      quantized_tick_position = None\<rparr> =
     Some (Some 12,
           \<lparr>pitch = 60, note_length = 2, quantization = 4, x_position = 3 / 4,
            quantized_tick_position = Some 12\<rparr>,
           Inr \<lparr>num_beats = 4, beat_value = 4, mnotes = [Rest 2, Rest 4, Note 2 {60}],
                num_ticks = 16\<rparr>) \<and>
   remove_note (scenario (\<lambda>n. n :: int))
     \<lparr>num_beats = 4, beat_value = 4, mnotes = [Rest 2, Rest 4, Note 2 {60}], num_ticks = 16\<rparr>
     \<lparr>pitch = 60, note_length = 2, quantization = 4, x_position = 3 / 4,
      quantized_tick_position = Some 12\<rparr> =
     Inr \<lparr>num_beats = 4, beat_value = 4, mnotes = [Rest 2, Rest 4, Rest 2], num_ticks = 16\<rparr> \<and>
   sum_of_ticks (scenario (\<lambda>n. n :: int)) [Rest 2, Rest 4, Rest 2] = 20"
  by (simp add: eval_defs insert_Diff_if)

text \<open>
  C9, amended. In a measure that satisfies the duration invariant, for a well-formed
  \<^verbatim>\<open>add_note\<close> request whose note fits and whose quantized tick \<open>t\<close> (the tick that
  \<^verbatim>\<open>quantize_position\<close> computes for it) is not the start of a Note, \<^verbatim>\<open>add_note\<close> returns with a new Note event that starts at tick \<open>t\<close>; a
  \<^verbatim>\<open>remove_note\<close> for the same pitch at tick \<open>t\<close> then returns, the events are those
  left by \<^verbatim>\<open>add_note\<close> with that Note replaced, at its index, by a Rest of the note's
  length (no rest is filled in again), and they sum to \<^verbatim>\<open>num_ticks\<close>.
\<close>

theorem add_then_remove:
  assumes unit: "tick_unit c s" and valid: "valid_measure c m" and rq: "valid_request c ni"
    and q: "quantize_position c m None (quantization ni) (x_position ni) = Some (Some t)"
    and fits: "fits_from c 0 (mnotes m) t (note_length_to_ticks c (note_length ni))"
    and fresh: "\<not> note_at c 0 (mnotes m) t"
    and same: "pitch rm = pitch ni" "quantized_tick_position rm = Some t"
  shows "\<exists>m1 k. add_note c g m ni =
                  Some (Some t, ni\<lparr>quantized_tick_position := Some t\<rparr>, Inr m1) \<and>
                k < length (mnotes m1) \<and>
                mnotes m1 ! k =
                  Note (note_length ni) {translate_midi_number_to_pitch c (pitch ni)} \<and>
                sum_of_ticks c (take k (mnotes m1)) = t \<and>
                remove_note c m1 rm =
                  Inr (m1\<lparr>mnotes := (mnotes m1)[k := Rest (note_length ni)]\<rparr>) \<and>
                sum_of_ticks c ((mnotes m1)[k := Rest (note_length ni)]) = num_ticks m \<and>
                num_ticks m1 = num_ticks m"
proof -
  let ?ni = "ni\<lparr>quantized_tick_position := Some t\<rparr>"
  let ?note = "Note (note_length ni) {translate_midi_number_to_pitch c (pitch ni)}"
  from valid_request_quantized [OF unit rq q, of g]
  have qg: "quantize_position c m g (quantization ni) (x_position ni) = Some (Some t)"
    and t: "0 \<le> t" "s dvd t" by simp_all
  have nl: "supported c (note_length ni)" using rq by (simp add: valid_request_def)
  from place_note_valid [OF unit valid, of ?ni t] t nl fits fresh
  obtain m1 A B where m1: "place_note_in_measure c m ?ni = Some (Inr m1)"
    "valid_measure c m1" "num_ticks m1 = num_ticks m"
    "mnotes m1 = A @ ?note # B" "sum_of_ticks c A = t"
    by auto
  have add: "add_note c g m ni = Some (Some t, ?ni, Inr m1)"
    using qg m1(1) by (simp add: add_note_def)
  have pos: "\<forall>e \<in> set A. 0 < ticks_of c e"
    using valid_measure_ticks(1) [OF unit m1(2)] m1(4) by simp
  have rem: "remove_note c m1 rm = Inr (m1\<lparr>mnotes := A @ Rest (note_length ni) # B\<rparr>)"
    using remove_note_at [OF same(2) m1(4) pos m1(5)] same(1) by simp
  have upd: "(mnotes m1)[length A := Rest (note_length ni)] = A @ Rest (note_length ni) # B"
    using m1(4) by simp
  have total: "sum_of_ticks c (A @ Rest (note_length ni) # B) = num_ticks m"
    using m1(2,3,4) by (simp add: valid_measure_def ticks_of_def)
  have "add_note c g m ni = Some (Some t, ?ni, Inr m1) \<and>
        length A < length (mnotes m1) \<and> mnotes m1 ! length A = ?note \<and>
        sum_of_ticks c (take (length A) (mnotes m1)) = t \<and>
        remove_note c m1 rm = Inr (m1\<lparr>mnotes := (mnotes m1)[length A := Rest (note_length ni)]\<rparr>) \<and>
        sum_of_ticks c ((mnotes m1)[length A := Rest (note_length ni)]) = num_ticks m \<and>
        num_ticks m1 = num_ticks m"
    using add rem total m1(3,5) unfolding upd by (simp add: m1(4))
  then show ?thesis by blast
qed


theorem add_then_remove_witness:
  "\<exists>m1 k. add_note (scenario (\<lambda>n. n :: int)) None
             \<lparr>num_beats = 4, beat_value = 4, mnotes = [Rest 1], num_ticks = 16\<rparr>
             \<lparr>pitch = 60, note_length = 4, quantization = 4, x_position = 1 / 2,
              quantized_tick_position = None\<rparr> =
             Some (Some 8,
                   \<lparr>pitch = 60, note_length = 4, quantization = 4, x_position = 1 / 2,
                    quantized_tick_position = Some 8\<rparr>, Inr m1) \<and>
           mnotes m1 ! k = Note 4 {60} \<and>
           remove_note (scenario (\<lambda>n. n :: int)) m1
             \<lparr>pitch = 60, note_length = 4, quantization = 4, x_position = 1 / 2,
              quantized_tick_position = Some 8\<rparr> =
             Inr (m1\<lparr>mnotes := (mnotes m1)[k := Rest 4]\<rparr>) \<and>
           sum_of_ticks (scenario (\<lambda>n. n :: int)) ((mnotes m1)[k := Rest 4]) = 16"
proof -
  let ?c = "scenario (\<lambda>n. n :: int)"
  let ?m = "\<lparr>num_beats = 4, beat_value = 4, mnotes = [Rest 1 :: int event], num_ticks = 16\<rparr>"
  let ?ni = "\<lparr>pitch = 60, note_length = 4, quantization = 4, x_position = 1 / 2,
              quantized_tick_position = None\<rparr>"
  let ?rm = "\<lparr>pitch = 60, note_length = 4, quantization = 4, x_position = 1 / 2,
              quantized_tick_position = Some 8\<rparr>"
  have unit: "tick_unit ?c 1" by (simp add: tick_unit_def scenario_def)
  have valid: "valid_measure ?c ?m"
    by (simp add: valid_measure_def supported_def sum_of_ticks_def ticks_of_def scenario_def)
  have rq: "valid_request ?c ?ni" by (simp add: valid_request_def supported_def scenario_def)
  have q: "quantize_position ?c ?m None (quantization ?ni) (x_position ?ni) = Some (Some 8)"
    by (simp add: eval_defs)
  have fits: "fits_from ?c 0 (mnotes ?m) 8 (note_length_to_ticks ?c (note_length ?ni))"
    by (simp add: ticks_of_def scenario_def)
  have fresh: "\<not> note_at ?c 0 (mnotes ?m) 8" by simp
  have same: "pitch ?rm = pitch ?ni" "quantized_tick_position ?rm = Some 8" by simp_all
  from add_then_remove [OF unit valid rq q fits fresh same, where g = None]
  show ?thesis
  proof (elim exE conjE)
    fix m1 k
    assume a: "add_note ?c None ?m ?ni = Some (Some 8, ?ni\<lparr>quantized_tick_position := Some 8\<rparr>, Inr m1)"
      and b: "mnotes m1 ! k =
                Note (note_length ?ni) {translate_midi_number_to_pitch ?c (pitch ?ni)}"
      and r: "remove_note ?c m1 ?rm = Inr (m1\<lparr>mnotes := (mnotes m1)[k := Rest (note_length ?ni)]\<rparr>)"
      and t: "sum_of_ticks ?c ((mnotes m1)[k := Rest (note_length ?ni)]) = num_ticks ?m"
    have tr: "translate_midi_number_to_pitch ?c 60 = 60" by (simp add: scenario_def)
    show ?thesis
      by (rule exI [of _ m1], rule exI [of _ k]) (use a b r t tr in simp)
  qed
qed

subsection \<open>The duration invariant along a sequence of calls\<close>

lemma Measure_valid:
  assumes unit: "tick_unit c s" and nb: "0 \<le> num_beats md" and bv: "supported c (beat_value md)"
  shows "\<exists>m. Measure c md = Some (Inr m) \<and> valid_measure c m"
proof -
  let ?n = "num_beats md * note_length_to_ticks c (beat_value md)"
  let ?m = "\<lparr>num_beats = num_beats md, beat_value = beat_value md, mnotes = [], num_ticks = ?n\<rparr>"
  have t: "0 < note_length_to_ticks c (beat_value md)" "s dvd note_length_to_ticks c (beat_value md)"
    using tick_unit_supported [OF unit bv] by simp_all
  have "s dvd ?n" using t(2) by simp
  moreover have "0 \<le> ?n" using nb t(1) by simp
  ultimately obtain rs where rs: "fill_loop c ?m 0 ?n [] = Some (Inr ([] @ rs))"
    "\<forall>e \<in> set rs. is_rest e \<and> supported c (ev_length e)" "sum_of_ticks c rs = ?n"
    using fill_loop_total [OF unit, of 0 ?n ?m "[]"] by auto
  have "Measure c md = Some (Inr (?m\<lparr>mnotes := rs\<rparr>))"
    using rs(1) by (simp add: Measure_def create_empty_measure_def fill_space_with_rests_def)
  moreover have "valid_measure c (?m\<lparr>mnotes := rs\<rparr>)"
    using rs(2,3) by (simp add: valid_measure_def)
  ultimately show ?thesis by blast
qed

lemma step_valid:
  assumes unit: "tick_unit c s" and valid: "valid_measure c m" and ok: "call_ok c m x"
  shows "\<exists>st. step c (g, m) x = Some st \<and> valid_measure c (snd st)"
proof (cases x)
  case (Remove ni)
  then show ?thesis using remove_note_valid [OF valid, of ni] by simp
next
  case (Add ni)
  with ok have rq: "valid_request c ni" and fit: "add_fits c m ni" by simp_all
  from fit obtain t where q0: "quantize_position c m None (quantization ni) (x_position ni) = Some (Some t)"
    and fits: "fits_from c 0 (mnotes m) t (note_length_to_ticks c (note_length ni))"
    by (auto simp: add_fits_def split: option.splits)
  from valid_request_quantized [OF unit rq q0, of g]
  have q: "quantize_position c m g (quantization ni) (x_position ni) = Some (Some t)"
    and t: "0 \<le> t" "s dvd t" by simp_all
  have nl: "supported c (note_length ni)" using rq by (simp add: valid_request_def)
  from place_note_valid [OF unit valid, of "ni\<lparr>quantized_tick_position := Some t\<rparr>" t] t nl fits
  obtain m1 where m1: "place_note_in_measure c m (ni\<lparr>quantized_tick_position := Some t\<rparr>) = Some (Inr m1)"
    "valid_measure c m1" by auto
  have "step c (g, m) x = Some (Some t, m1)"
    using Add q m1(1) by (simp add: add_note_def)
  with m1(2) show ?thesis by simp
qed

lemma run_valid:
  assumes unit: "tick_unit c s"
  shows "valid_measure c (snd st) \<Longrightarrow> calls_ok c st calls \<Longrightarrow>
         \<exists>sts. run c st calls = Some sts \<and> (\<forall>st' \<in> set sts. valid_measure c (snd st'))"
proof (induction calls arbitrary: st)
  case Nil
  then show ?case by simp
next
  case (Cons x xs)
  obtain g m where st: "st = (g, m)" by (cases st)
  from Cons.prems st have valid: "valid_measure c m" and ok: "call_ok c m x" by simp_all
  from step_valid [OF unit valid ok, of g]
  obtain st1 where st1: "step c (g, m) x = Some st1" "valid_measure c (snd st1)" by blast
  from Cons.prems(2) st st1(1) have "calls_ok c st1 xs" by simp
  from Cons.IH [OF st1(2) this]
  obtain sts where sts: "run c st1 xs = Some sts" "\<forall>st' \<in> set sts. valid_measure c (snd st')"
    by blast
  have "run c st (x # xs) = Some (st # sts)" using st st1(1) sts(1) by simp
  moreover have "\<forall>st' \<in> set (st # sts). valid_measure c (snd st')"
    using sts(2) Cons.prems(1) by simp
  ultimately show ?case by blast
qed

text \<open>
  C1 as stated fails: on the fresh measure of 4 beats of quarter-note value, a
  well-formed request for a half note at position 0.75 (tick 12) returns, and the
  events then sum to 20 ticks although \<^verbatim>\<open>num_ticks\<close> is 16.
\<close>

theorem duration_invariant_overflow:
  "Measure (scenario (\<lambda>n. n :: int)) \<lparr>num_beats = 4, beat_value = 4\<rparr> =
     Some (Inr \<lparr>num_beats = 4, beat_value = 4, mnotes = [Rest 1], num_ticks = 16\<rparr>) \<and>
   valid_request (scenario (\<lambda>n. n :: int))
     \<lparr>pitch = 60, note_length = 2, quantization = 4, x_position = 3 / 4,
      quantized_tick_position = None\<rparr> \<and>
   run (scenario (\<lambda>n. n :: int))
     (None, \<lparr>num_beats = 4, beat_value = 4, mnotes = [Rest 1], num_ticks = 16\<rparr>)
     [Add \<lparr>pitch = 60, note_length = 2, quantization = 4, x_position = 3 / 4,
           quantized_tick_position = None\<rparr>] =
     Some [(None, \<lparr>num_beats = 4, beat_value = 4, mnotes = [Rest 1], num_ticks = 16\<rparr>),
           (Some 12, \<lparr>num_beats = 4, beat_value = 4, mnotes = [Rest 2, Rest 4, Note 2 {60}],
                      num_ticks = 16\<rparr>)] \<and>
   sum_of_ticks (scenario (\<lambda>n. n :: int)) [Rest 2, Rest 4, Note 2 {60}] = 20"
  by (simp add: eval_defs valid_request_def supported_def)

text \<open>
  C1, amended. For every measure made by the constructor (a number of beats that is
  not negative, a supported beat value) and every sequence of \<^verbatim>\<open>add_note\<close> and
  \<^verbatim>\<open>remove_note\<close> calls in which each \<^verbatim>\<open>add_note\<close> request is well formed and its note
  fits into the measure as it is at that call, every call ends (returns or throws)
  and the tick lengths of the events sum to \<^verbatim>\<open>num_ticks\<close> before and after each call.
  The start tick of an event being the sum of the tick lengths before it, the events
  then cover the measure with no gap and no overlap.
\<close>

theorem duration_invariant:
  assumes "tick_unit c s" and "0 \<le> num_beats md" and "supported c (beat_value md)"
  shows "\<exists>m. Measure c md = Some (Inr m) \<and>
             (\<forall>g calls. calls_ok c (g, m) calls \<longrightarrow>
                (\<exists>sts. run c (g, m) calls = Some sts \<and>
                       (\<forall>st \<in> set sts. sum_of_ticks c (mnotes (snd st)) = num_ticks (snd st))))"
proof -
  from Measure_valid [OF assms] obtain m where m: "Measure c md = Some (Inr m)" "valid_measure c m"
    by blast
  have "\<forall>g calls. calls_ok c (g, m) calls \<longrightarrow>
          (\<exists>sts. run c (g, m) calls = Some sts \<and>
                 (\<forall>st \<in> set sts. sum_of_ticks c (mnotes (snd st)) = num_ticks (snd st)))"
  proof (intro allI impI)
    fix g calls assume "calls_ok c (g, m) calls"
    from run_valid [OF assms(1), of "(g, m)" calls] m(2) this
    obtain sts where "run c (g, m) calls = Some sts" "\<forall>st' \<in> set sts. valid_measure c (snd st')"
      by auto
    then show "\<exists>sts. run c (g, m) calls = Some sts \<and>
                 (\<forall>st \<in> set sts. sum_of_ticks c (mnotes (snd st)) = num_ticks (snd st))"
      by (auto simp: valid_measure_def)
  qed
  with m(1) show ?thesis by blast
qed


theorem duration_invariant_witness:
  "\<exists>sts. run (scenario (\<lambda>n. n :: int))
            (None, \<lparr>num_beats = 4, beat_value = 4, mnotes = [Rest 1], num_ticks = 16\<rparr>)
            [Add \<lparr>pitch = 60, note_length = 4, quantization = 4, x_position = 1 / 2,
                  quantized_tick_position = None\<rparr>,
             Remove \<lparr>pitch = 60, note_length = 4, quantization = 4, x_position = 1 / 2,
                     quantized_tick_position = Some 8\<rparr>] = Some sts \<and>
          (\<forall>st \<in> set sts. sum_of_ticks (scenario (\<lambda>n. n :: int)) (mnotes (snd st)) =
                            num_ticks (snd st))"
proof -
  let ?c = "scenario (\<lambda>n. n :: int)"
  let ?md = "\<lparr>num_beats = 4, beat_value = 4\<rparr>"
  let ?m = "\<lparr>num_beats = 4, beat_value = 4, mnotes = [Rest 1 :: int event], num_ticks = 16\<rparr>"
  let ?calls = "[Add \<lparr>pitch = 60, note_length = 4, quantization = 4, x_position = 1 / 2,
                  quantized_tick_position = None\<rparr>,
             Remove \<lparr>pitch = 60, note_length = 4, quantization = 4, x_position = 1 / 2,
                     quantized_tick_position = Some 8\<rparr>]"
  have unit: "tick_unit ?c 1" by (simp add: tick_unit_def scenario_def)
  have nb: "0 \<le> num_beats ?md" by simp
  have bv: "supported ?c (beat_value ?md)" by (simp add: supported_def scenario_def)
  have cons: "Measure ?c ?md = Some (Inr ?m)" by (simp add: eval_defs)
  have add: "add_note ?c None ?m \<lparr>pitch = 60, note_length = 4, quantization = 4,
                 x_position = 1 / 2, quantized_tick_position = None\<rparr> =
     Some (Some 8,
           \<lparr>pitch = 60, note_length = 4, quantization = 4, x_position = 1 / 2,
            quantized_tick_position = Some 8\<rparr>,
           Inr \<lparr>num_beats = 4, beat_value = 4,
                mnotes = [Rest 2, Note 4 {60}, Rest 4], num_ticks = 16\<rparr>)"
    by (simp add: eval_defs)
  have fit: "add_fits ?c ?m \<lparr>pitch = 60, note_length = 4, quantization = 4,
                 x_position = 1 / 2, quantized_tick_position = None\<rparr>"
    by (simp add: add_fits_def eval_defs)
  have rq: "valid_request ?c \<lparr>pitch = 60, note_length = 4, quantization = 4,
                 x_position = 1 / 2, quantized_tick_position = None\<rparr>"
    by (simp add: valid_request_def supported_def scenario_def)
  have ok: "calls_ok ?c (None, ?m) ?calls"
    using add fit rq by simp
  from duration_invariant [OF unit nb bv]
  show ?thesis
  proof (elim exE conjE)
    fix m
    assume m: "Measure ?c ?md = Some (Inr m)"
      and all: "\<forall>g calls. calls_ok ?c (g, m) calls \<longrightarrow>
                (\<exists>sts. run ?c (g, m) calls = Some sts \<and>
                       (\<forall>st \<in> set sts. sum_of_ticks ?c (mnotes (snd st)) = num_ticks (snd st)))"
    from m cons have "m = ?m" by simp
    with all ok show ?thesis by (elim allE [of _ None] allE [of _ ?calls]) simp
  qed
qed

end
